theory Spec2Isabelle
  imports Complex_Main "HOL-Library.AList"
begin

section \<open>Array cable installation (ORBIT/phases/install/cable_install/array.py)\<close>

subsection \<open>Data\<close>

text \<open>
  Keyword arguments are a Python dict with string keys: an association list with distinct
  keys, in insertion order. \<open>{**kwargs, key: v}\<close> is \<open>AList.update key v kwargs\<close>: an
  existing key keeps its place and gets the new value, a new key is appended.
  Lengths, speeds and times are Python numbers; they are modelled as exact rationals
  (no claim below depends on rounding).
\<close>

type_synonym kwargs = "(string \<times> rat) list"

text \<open>\<open>SimpleCable(linear_density)\<close>.\<close>

record cable =
  linear_density :: rat

text \<open>
  An entry of \<open>cable_sections\<close>: the tuple \<open>(length, num_sections, *extra)\<close>; \<open>extra\<close>
  holds the optional speed.
\<close>

type_synonym section_spec = "rat \<times> int \<times> rat list"

text \<open>The two location flags of a \<open>Vessel\<close> that the process reads and writes.\<close>

record vessel =
  at_port :: bool
  at_site :: bool

datatype agent = InstallVessel | BurialVessel | TrenchVessel

text \<open>
  The exceptions that can leave the process. \<open>IndexError\<close> from \<open>sections.pop(0)\<close> is
  caught inside the loops and is a branch of the model, not a result.
  \<open>AgentAlreadyScheduled\<close> is raised by the scheduler, see \<open>scheduled\<close> below.
\<close>

datatype error = InsufficientCable | AttributeError | TypeError | AgentAlreadyScheduled

text \<open>
  What the generator yields: one constructor per step function. The laying steps carry
  the section and the keyword arguments they are called with; every other step is
  called with the unmodified \<open>kwargs\<close>.
\<close>

datatype action =
    Transit
  | LoadCable
  | PositionOnsite
  | PrepCable
  | PullInCable
  | TerminateCable
  | LowerCable
  | LayBuryCable rat kwargs
  | LayCable rat kwargs
  | BuryCable rat
  | DigTrench rat

text \<open>
  A suspension point: the step yielded, the vessel that performs it, and the location
  flags of the three vessels at the moment of the yield.
\<close>

record event =
  agent :: agent
  action :: action
  install_flags :: vessel
  burial_flags :: "vessel option"
  trench_flags :: "vessel option"

text \<open>
  A Python value passed where a list of sections is expected: \<open>dig_array_cables_trench\<close>
  iterates over its second argument.
\<close>

datatype pyval = Num rat | Lst "rat list"

text \<open>A process that is created but not yielded (it runs on its own under the scheduler).\<close>

datatype call = DigArrayCablesTrench pyval | BuryArrayCables "rat list"

text \<open>
  The interface of \<open>vessel.cable_storage\<close>. Its class is not part of array.py, so the
  operations the process calls are parameters over an arbitrary storage state \<open>'s\<close>:
  \<open>reset()\<close>, the \<open>load_cable(cable)\<close> that \<open>load_cable_on_vessel\<close> performs, and
  \<open>get_cable(length)\<close>, which returns the section and the new storage or raises.
\<close>

record 's storage_ops =
  reset :: "'s \<Rightarrow> 's"
  load_cable :: "'s \<Rightarrow> cable \<Rightarrow> 's"
  get_cable :: "'s \<Rightarrow> rat \<Rightarrow> error + (rat \<times> 's)"

text \<open>
  The state the process works on. \<open>heap\<close> is the store of Python list objects:
  \<open>cable_data\<close> holds, for every cable, the address of its mutable \<open>sections\<close> list, and
  \<open>sections.pop(0)\<close> updates the store at that address. \<open>log\<close> is the sequence of
  suspension points so far, \<open>spawned\<close> the processes created without a yield.
\<close>

record 's sim =
  install_vessel :: vessel
  cable_storage :: 's
  burial_vessel :: "vessel option"
  trench_vessel :: "vessel option"
  heap :: "nat \<Rightarrow> section_spec list"
  to_bury :: "rat list"
  log :: "event list"
  spawned :: "call list"

text \<open>
  A process either runs to its end (\<open>Inr\<close>, the final state) or is left by an exception
  (\<open>Inl\<close>, with the state at the raise). A \<open>while True\<close> loop that never returns is
  \<open>None\<close>.
\<close>

type_synonym 's outcome = "(error \<times> 's sim) + 's sim"

subsection \<open>Steps\<close>

text \<open>
  \<open>yield step(v, ...)\<close>: the process is suspended at this point. The trace assumes that
  every yielded step completes and the process is resumed.
\<close>

definition yield_step :: "agent \<Rightarrow> action \<Rightarrow> 's sim \<Rightarrow> 's sim" where
  "yield_step a x st =
     st\<lparr>log := log st @
       [\<lparr>agent = a, action = x, install_flags = install_vessel st,
         burial_flags = burial_vessel st, trench_flags = trench_vessel st\<rparr>]\<rparr>"

definition set_install :: "(vessel \<Rightarrow> vessel) \<Rightarrow> 's sim \<Rightarrow> 's sim" where
  "set_install f st = st\<lparr>install_vessel := f (install_vessel st)\<rparr>"

definition set_trench :: "(vessel \<Rightarrow> vessel) \<Rightarrow> 's sim \<Rightarrow> 's sim" where
  "set_trench f st = st\<lparr>trench_vessel := map_option f (trench_vessel st)\<rparr>"

text \<open>
  \<open>yield load_cable_on_vessel(vessel, cable, **kwargs)\<close>: the sub-process loads the
  carousel and the caller waits for it.
\<close>

definition load_cable_on_vessel :: "'s storage_ops \<Rightarrow> cable \<Rightarrow> 's sim \<Rightarrow> 's sim" where
  "load_cable_on_vessel ops c st =
     (yield_step InstallVessel LoadCable st)
       \<lparr>cable_storage := load_cable ops (cable_storage st) c\<rparr>"

text \<open>
  Lines 234--246: the keyword arguments of the laying step of a section.
\<close>

definition lay_specs :: "bool \<Rightarrow> kwargs \<Rightarrow> rat list \<Rightarrow> kwargs" where
  "lay_specs burial kwargs extra =
     (case extra of
        [] \<Rightarrow> kwargs
      | speed # _ \<Rightarrow>
          if \<not> burial then AList.update ''cable_lay_bury_speed'' speed kwargs
          else AList.update ''cable_lay_speed'' speed kwargs)"

text \<open>
  Lines 266--284: the laying procedure of one section, once the section is in hand.
  \<open>burial\<close> is \<open>burial_vessel is not None\<close>.
\<close>

definition lay_procedure :: "bool \<Rightarrow> kwargs \<Rightarrow> rat \<Rightarrow> 's sim \<Rightarrow> 's sim" where
  "lay_procedure burial specs section st =
     (let st1 = yield_step InstallVessel PositionOnsite st;
          st2 = yield_step InstallVessel PrepCable st1;
          st3 = yield_step InstallVessel PullInCable st2;
          st4 = yield_step InstallVessel TerminateCable st3;
          st5 = yield_step InstallVessel LowerCable st4;
          st6 = (if \<not> burial then yield_step InstallVessel (LayBuryCable section specs) st5
                 else (yield_step InstallVessel (LayCable section specs) st5)
                        \<lparr>to_bury := to_bury st5 @ [section]\<rparr>);
          st7 = yield_step InstallVessel PrepCable st6;
          st8 = yield_step InstallVessel PullInCable st7
      in yield_step InstallVessel TerminateCable st8)"

text \<open>
  Lines 256--264: take the section from the carousel. On \<open>InsufficientCable\<close> the vessel
  transits, reloads, transits and calls \<open>get_cable\<close> again; that second call is inside
  the \<open>except\<close> block, outside any \<open>try\<close>, so whatever it raises leaves the process.
  Any other exception of the first call is not caught.
\<close>

definition install_section ::
  "'s storage_ops \<Rightarrow> bool \<Rightarrow> cable \<Rightarrow> rat \<Rightarrow> kwargs \<Rightarrow> 's sim \<Rightarrow> 's outcome" where
  "install_section ops burial c len specs st =
     (case get_cable ops (cable_storage st) len of
        Inr (section, s') \<Rightarrow> Inr (lay_procedure burial specs section (st\<lparr>cable_storage := s'\<rparr>))
      | Inl InsufficientCable \<Rightarrow>
          (let st1 = yield_step InstallVessel Transit st;
               st2 = load_cable_on_vessel ops c st1;
               st3 = yield_step InstallVessel Transit st2
           in case get_cable ops (cable_storage st3) len of
                Inr (section, s') \<Rightarrow>
                  Inr (lay_procedure burial specs section (st3\<lparr>cable_storage := s'\<rparr>))
              | Inl e \<Rightarrow> Inl (e, st3))
      | Inl e \<Rightarrow> Inl (e, st))"

text \<open>Line 254: \<open>for _ in range(num_sections)\<close>.\<close>

fun install_sections ::
  "'s storage_ops \<Rightarrow> bool \<Rightarrow> cable \<Rightarrow> rat \<Rightarrow> kwargs \<Rightarrow> nat \<Rightarrow> 's sim \<Rightarrow> 's outcome" where
  "install_sections ops burial c len specs 0 st = Inr st"
| "install_sections ops burial c len specs (Suc k) st =
     (case install_section ops burial c len specs st of
        Inl e \<Rightarrow> Inl e
      | Inr st' \<Rightarrow> install_sections ops burial c len specs k st')"

text \<open>
  Lines 224--284: the \<open>while True\<close> loop of one cable, whose \<open>sections\<close> list lives at
  address \<open>a\<close>. With neither flag set no branch is taken and the loop spins.
\<close>

partial_function (option) install_loop ::
  "'s storage_ops \<Rightarrow> bool \<Rightarrow> kwargs \<Rightarrow> cable \<Rightarrow> nat \<Rightarrow> 's sim \<Rightarrow> 's outcome option" where
  "install_loop ops burial kwargs c a st =
     (if at_port (install_vessel st) then
        (let st1 = load_cable_on_vessel ops c st;
             st2 = set_install (\<lambda>v. v\<lparr>at_port := False\<rparr>) st1;
             st3 = yield_step InstallVessel Transit st2;
             st4 = set_install (\<lambda>v. v\<lparr>at_site := True\<rparr>) st3
         in install_loop ops burial kwargs c a st4)
      else if at_site (install_vessel st) then
        (case heap st a of
           [] \<Rightarrow>
             (let st1 = set_install (\<lambda>v. v\<lparr>at_site := False\<rparr>) st;
                  st2 = yield_step InstallVessel Transit st1
              in Some (Inr (set_install (\<lambda>v. v\<lparr>at_port := True\<rparr>) st2)))
         | (len, num_sections, extra) # rest \<Rightarrow>
             (case install_sections ops burial c len (lay_specs burial kwargs extra)
                     (nat num_sections) (st\<lparr>heap := (heap st)(a := rest)\<rparr>) of
                Inl e \<Rightarrow> Some (Inl e)
              | Inr st' \<Rightarrow> install_loop ops burial kwargs c a st'))
      else install_loop ops burial kwargs c a st)"

declare install_loop.simps [code]

text \<open>
  Lines 221--289: \<open>for cable, sections in cable_data\<close>. Every cable starts with
  \<open>vessel.cable_storage.reset()\<close> and ends with the transit of lines 287--289.
\<close>

fun install_cables ::
  "'s storage_ops \<Rightarrow> bool \<Rightarrow> kwargs \<Rightarrow> (cable \<times> nat) list \<Rightarrow> 's sim \<Rightarrow> 's outcome option" where
  "install_cables ops burial kwargs [] st = Some (Inr st)"
| "install_cables ops burial kwargs ((c, a) # cable_data) st =
     (case install_loop ops burial kwargs c a
             (st\<lparr>cable_storage := reset ops (cable_storage st)\<rparr>) of
        None \<Rightarrow> None
      | Some (Inl e) \<Rightarrow> Some (Inl e)
      | Some (Inr st') \<Rightarrow>
          (let st1 = set_install (\<lambda>v. v\<lparr>at_site := False\<rparr>) st';
               st2 = yield_step InstallVessel Transit st1;
               st3 = set_install (\<lambda>v. v\<lparr>at_port := True\<rparr>) st2
           in install_cables ops burial kwargs cable_data st3))"

subsection \<open>Trenching\<close>

text \<open>
  The scheduler is not part of array.py; the trenching part is the one place where its
  rule for a vessel with two processes decides the run. A call of a process function
  that is not yielded only creates the process: it starts when its creator is next
  suspended, and until then its vessel is scheduled. Creating one more process for a
  scheduled vessel -- calling a step function of the vessel such as \<open>transit\<close> is doing
  so -- raises \<open>AgentAlreadyScheduled\<close> in the creator. \<open>spawned\<close> holds the processes
  that were created and not yielded since the process started; \<open>call_agent\<close> is the
  vessel a process was created for.
\<close>

fun call_agent :: "call \<Rightarrow> agent" where
  "call_agent (DigArrayCablesTrench v) = TrenchVessel"
| "call_agent (BuryArrayCables sections) = BurialVessel"

definition scheduled :: "agent \<Rightarrow> 's sim \<Rightarrow> bool" where
  "scheduled a st = list_ex (\<lambda>call. call_agent call = a) (spawned st)"

text \<open>
  \<open>yield step(v, ...)\<close> for a vessel that may be scheduled: the call of the step
  function raises, or the step is yielded.
\<close>

definition yield_checked :: "agent \<Rightarrow> action \<Rightarrow> 's sim \<Rightarrow> 's outcome" where
  "yield_checked a x st =
     (if scheduled a st then Inl (AgentAlreadyScheduled, st) else Inr (yield_step a x st))"

text \<open>
  Lines 205--208: \<open>dig_array_cables_trench(trench_vessel, length, **kwargs)\<close> is called,
  not yielded, once per section: each call creates a process for the trench vessel
  whose \<open>sections\<close> argument is the number \<open>length\<close>. The first call leaves the trench
  vessel scheduled, so a second one raises.
\<close>

fun spawn_digs :: "rat \<Rightarrow> nat \<Rightarrow> 's sim \<Rightarrow> 's outcome" where
  "spawn_digs len 0 st = Inr st"
| "spawn_digs len (Suc k) st =
     (if scheduled TrenchVessel st then Inl (AgentAlreadyScheduled, st)
      else spawn_digs len k (st\<lparr>spawned := spawned st @ [DigArrayCablesTrench (Num len)]\<rparr>))"

text \<open>
  Lines 194--213: the \<open>while True\<close> loop of the trench vessel for the cable whose
  \<open>sections\<close> list lives at address \<open>a\<close>. It pops from the same list object that the
  laying loop reads later. Reading a flag of \<open>None\<close> would raise \<open>AttributeError\<close>.
  The flag is written before the transit is called (lines 196 and 210), so a transit
  that raises leaves the flag written.
\<close>

partial_function (option) trench_loop :: "nat \<Rightarrow> 's sim \<Rightarrow> 's outcome option" where
  "trench_loop a st =
     (case trench_vessel st of
        None \<Rightarrow> Some (Inl (AttributeError, st))
      | Some tv \<Rightarrow>
          if at_port tv then
            (case yield_checked TrenchVessel Transit
                    (set_trench (\<lambda>v. v\<lparr>at_port := False\<rparr>) st) of
               Inl e \<Rightarrow> Some (Inl e)
             | Inr st2 \<Rightarrow> trench_loop a (set_trench (\<lambda>v. v\<lparr>at_site := True\<rparr>) st2))
          else if at_site tv then
            (case heap st a of
               [] \<Rightarrow>
                 (case yield_checked TrenchVessel Transit
                         (set_trench (\<lambda>v. v\<lparr>at_site := False\<rparr>) st) of
                    Inl e \<Rightarrow> Some (Inl e)
                  | Inr st2 \<Rightarrow> Some (Inr (set_trench (\<lambda>v. v\<lparr>at_port := True\<rparr>) st2)))
             | (len, num_sections, extra) # rest \<Rightarrow>
                 (case spawn_digs len (nat num_sections) (st\<lparr>heap := (heap st)(a := rest)\<rparr>) of
                    Inl e \<Rightarrow> Some (Inl e)
                  | Inr st' \<Rightarrow> trench_loop a st'))
          else trench_loop a st)"

declare trench_loop.simps [code]

text \<open>Lines 191--217: \<open>for cable, sections in cable_data\<close> of the trenching part.\<close>

fun trench_cables :: "'s storage_ops \<Rightarrow> (cable \<times> nat) list \<Rightarrow> 's sim \<Rightarrow> 's outcome option" where
  "trench_cables ops [] st = Some (Inr st)"
| "trench_cables ops ((c, a) # cable_data) st =
     (case trench_loop a (st\<lparr>cable_storage := reset ops (cable_storage st)\<rparr>) of
        None \<Rightarrow> None
      | Some (Inl e) \<Rightarrow> Some (Inl e)
      | Some (Inr st') \<Rightarrow>
          (case yield_checked TrenchVessel Transit
                  (set_trench (\<lambda>v. v\<lparr>at_site := False\<rparr>) st') of
             Inl e \<Rightarrow> Some (Inl e)
           | Inr st2 \<Rightarrow>
               trench_cables ops cable_data (set_trench (\<lambda>v. v\<lparr>at_port := True\<rparr>) st2)))"

subsection \<open>The process\<close>

text \<open>
  \<open>install_array_cables(vessel, distance, cable_data, burial_vessel, trench_vessel,
  **kwargs)\<close>. The three vessels are in the state; \<open>distance\<close> is only handed on to
  \<open>transit\<close>. Line 298 creates the burial process with the list \<open>to_bury\<close>. No process
  is ever created for the installation vessel without a yield, and the burial process is
  the only one of the burial vessel, so only the steps of the trench vessel can meet a
  scheduled vessel; when the trenching part returns it has created no process
  (\<open>trench_cables_run\<close> below), so none is waiting to start while the cables are laid.
\<close>

definition install_array_cables ::
  "'s storage_ops \<Rightarrow> rat \<Rightarrow> (cable \<times> nat) list \<Rightarrow> kwargs \<Rightarrow> 's sim \<Rightarrow> 's outcome option" where
  "install_array_cables ops distance cable_data kwargs st =
     (case (if trench_vessel st = None then Some (Inr st)
            else trench_cables ops cable_data st) of
        None \<Rightarrow> None
      | Some (Inl e) \<Rightarrow> Some (Inl e)
      | Some (Inr st1) \<Rightarrow>
          (case install_cables ops (burial_vessel st1 \<noteq> None) kwargs cable_data
                  (st1\<lparr>to_bury := []\<rparr>) of
             None \<Rightarrow> None
           | Some (Inl e) \<Rightarrow> Some (Inl e)
           | Some (Inr st2) \<Rightarrow>
               Some (Inr (if burial_vessel st2 = None then st2
                          else st2\<lparr>spawned := spawned st2 @ [BuryArrayCables (to_bury st2)]\<rparr>))))"

text \<open>
  Lines 301--318: the body of the burial process, run from the state in which the
  scheduler starts it.
\<close>

fun bury_array_cables :: "rat list \<Rightarrow> 's sim \<Rightarrow> 's sim" where
  "bury_array_cables [] st = st"
| "bury_array_cables (len # sections) st =
     bury_array_cables sections
       (yield_step BurialVessel (BuryCable len) (yield_step BurialVessel PositionOnsite st))"

text \<open>
  Lines 320--337: the body of a trench digging process. \<open>for length in sections\<close> over a
  number raises \<open>TypeError\<close>.
\<close>

fun dig_sections :: "rat list \<Rightarrow> 's sim \<Rightarrow> 's sim" where
  "dig_sections [] st = st"
| "dig_sections (len # sections) st =
     dig_sections sections
       (yield_step TrenchVessel (DigTrench len) (yield_step TrenchVessel PositionOnsite st))"

fun dig_array_cables_trench :: "pyval \<Rightarrow> 's sim \<Rightarrow> 's outcome" where
  "dig_array_cables_trench (Num x) st = Inl (TypeError, st)"
| "dig_array_cables_trench (Lst sections) st = Inr (dig_sections sections st)"

subsection \<open>The phase\<close>

text \<open>
  The part of the phase configuration that \<open>setup_simulation\<close> reads: whether the
  optional vessels are configured, the site distance, and the cables in dict order, each
  with its linear density and the address of its \<open>cable_sections\<close> list.
\<close>

record config =
  array_cable_bury_vessel :: bool
  array_cable_trench_vessel :: bool
  site_distance :: rat
  cables :: "(string \<times> rat \<times> nat) list"

text \<open>
  Lines 87--90: \<open>deepcopy(data["cable_sections"])\<close> for every cable. Each copy is a new
  list object at the next free address \<open>n\<close> of the store.
\<close>

fun copy_cables ::
  "(string \<times> rat \<times> nat) list \<Rightarrow> (nat \<Rightarrow> section_spec list) \<Rightarrow> nat \<Rightarrow>
   (cable \<times> nat) list \<times> (nat \<Rightarrow> section_spec list)" where
  "copy_cables [] h n = ([], h)"
| "copy_cables ((name, ld, a) # cs) h n =
     (let (cable_data, h') = copy_cables cs (h(n := h a)) (Suc n)
      in ((\<lparr>linear_density = ld\<rparr>, n) # cable_data, h'))"

text \<open>Lines 102--151: every vessel that is created starts at port.\<close>

definition initial_vessel :: vessel where
  "initial_vessel = \<lparr>at_port = True, at_site = False\<rparr>"

text \<open>
  Lines 76--100. \<open>s0\<close> is the cable storage of the new installation vessel, \<open>h\<close> the
  store of list objects and \<open>n\<close> its next free address.
\<close>

definition setup_simulation ::
  "'s storage_ops \<Rightarrow> 's \<Rightarrow> config \<Rightarrow> (nat \<Rightarrow> section_spec list) \<Rightarrow> nat \<Rightarrow> kwargs \<Rightarrow>
   's outcome option" where
  "setup_simulation ops s0 cfg h n kwargs =
     (let (cable_data, h') = copy_cables (cables cfg) h n
      in install_array_cables ops (site_distance cfg) cable_data kwargs
           \<lparr>install_vessel = initial_vessel,
            cable_storage = s0,
            burial_vessel = (if array_cable_bury_vessel cfg then Some initial_vessel else None),
            trench_vessel = (if array_cable_trench_vessel cfg then Some initial_vessel else None),
            heap = h',
            to_bury = [],
            log = [],
            spawned = []\<rparr>)"

subsection \<open>A concrete cable storage\<close>

text \<open>
  Modelled from the spec: the cable storage pool of the vessel (the class behind
  \<open>vessel.cable_storage\<close> is not under src/). A pool is \<open>{capacity, level}\<close>;
  \<open>get(amount)\<close> decrements the level and fails with the insufficient-resource condition
  when \<open>amount > level\<close>; \<open>reset()\<close> and a reload restock to full capacity. It is used
  to run the process on concrete inputs; the theorems below hold for every storage.
\<close>

record pool =
  capacity :: rat
  level :: rat

definition pool_ops :: "pool storage_ops" where
  "pool_ops =
     \<lparr>reset = (\<lambda>p. p\<lparr>level := capacity p\<rparr>),
      load_cable = (\<lambda>p c. p\<lparr>level := capacity p\<rparr>),
      get_cable = (\<lambda>p len. if len > level p then Inl InsufficientCable
                             else Inr (len, p\<lparr>level := level p - len\<rparr>))\<rparr>"

text \<open>A vessel at site with an empty carousel of capacity 10, nothing logged yet.\<close>

definition at_site_sim :: "pool sim" where
  "at_site_sim =
     \<lparr>install_vessel = \<lparr>at_port = False, at_site = True\<rparr>,
      cable_storage = \<lparr>capacity = 10, level = 0\<rparr>,
      burial_vessel = None,
      trench_vessel = None,
      heap = (\<lambda>_. []),
      to_bury = [],
      log = [],
      spawned = []\<rparr>"

text \<open>A phase with one cable whose \<open>cable_sections\<close> list is at address 0.\<close>

definition one_cable :: config where
  "one_cable =
     \<lparr>array_cable_bury_vessel = False,
      array_cable_trench_vessel = False,
      site_distance = 50,
      cables = [(''XLPE'', 1, 0)]\<rparr>"

subsection \<open>Observations\<close>

text \<open>The state an outcome ends in, whether the process returned or raised.\<close>

definition state_of :: "'s outcome \<Rightarrow> 's sim" where
  "state_of r = (case r of Inl (e, st) \<Rightarrow> st | Inr st \<Rightarrow> st)"


text \<open>What a step leaves unchanged when it only logs, loads or lays.\<close>

definition keeps :: "'s sim \<Rightarrow> 's sim \<Rightarrow> bool" where
  "keeps st st' =
     (install_vessel st' = install_vessel st \<and> burial_vessel st' = burial_vessel st \<and>
      trench_vessel st' = trench_vessel st \<and> heap st' = heap st \<and> spawned st' = spawned st)"

text \<open>
  The store only loses list entries, and only at the addresses in \<open>A\<close>.
\<close>

definition heap_shrinks :: "nat set \<Rightarrow> 's sim \<Rightarrow> 's sim \<Rightarrow> bool" where
  "heap_shrinks A st st' =
     (\<forall>b. (b \<notin> A \<longrightarrow> heap st' b = heap st b) \<and> set (heap st' b) \<subseteq> set (heap st b))"

text \<open>
  Location of a vessel: exactly one of \<open>at_port\<close> and \<open>at_site\<close> is true.
\<close>

definition located :: "vessel \<Rightarrow> bool" where
  "located v = (at_port v \<noteq> at_site v)"

definition vessels :: "agent list" where
  "vessels = [InstallVessel, BurialVessel, TrenchVessel]"

text \<open>The flags of a vessel as a suspension point recorded them, and as the state has them.\<close>

fun flags_of :: "agent \<Rightarrow> event \<Rightarrow> vessel option" where
  "flags_of InstallVessel ev = Some (install_flags ev)"
| "flags_of BurialVessel ev = burial_flags ev"
| "flags_of TrenchVessel ev = trench_flags ev"

fun flags_now :: "agent \<Rightarrow> 's sim \<Rightarrow> vessel option" where
  "flags_now InstallVessel st = Some (install_vessel st)"
| "flags_now BurialVessel st = burial_vessel st"
| "flags_now TrenchVessel st = trench_vessel st"

text \<open>The suspension point is a transit step of vessel \<open>a\<close>.\<close>

definition in_transit :: "agent \<Rightarrow> event \<Rightarrow> bool" where
  "in_transit a ev = (agent ev = a \<and> action ev = Transit)"

text \<open>
  At a suspension point every configured vessel is located, unless the point is a
  transit step of that vessel.
\<close>

definition point_ok :: "event \<Rightarrow> bool" where
  "point_ok ev =
     list_all (\<lambda>a. case flags_of a ev of
                     None \<Rightarrow> True
                   | Some v \<Rightarrow> in_transit a ev \<or> located v) vessels"

text \<open>
  From one suspension point to the next the flags of a vessel are the same, unless one
  of the two points is a transit step of that vessel.
\<close>

definition change_ok :: "event \<Rightarrow> event \<Rightarrow> bool" where
  "change_ok e1 e2 =
     list_all (\<lambda>a. flags_of a e1 = flags_of a e2 \<or> in_transit a e1 \<or> in_transit a e2) vessels"

definition trace_ok :: "event list \<Rightarrow> bool" where
  "trace_ok evs = (list_all point_ok evs \<and> successively change_ok evs)"

text \<open>
  The invariant of the process between its blocks: the trace so far is fine, the flags
  are those of the last suspension point (or that point was a transit of the vessel), and
  every configured vessel is located.
\<close>

definition flags_inv :: "'s sim \<Rightarrow> bool" where
  "flags_inv st =
     (trace_ok (log st) \<and>
      (log st = [] \<or>
       list_all (\<lambda>a. flags_now a st = flags_of a (last (log st)) \<or>
                      in_transit a (last (log st))) vessels) \<and>
      list_all (\<lambda>a. case flags_now a st of None \<Rightarrow> True | Some v \<Rightarrow> located v) vessels)"

text \<open>The sections of the laying, lay-and-bury and burial steps of a trace, in order.\<close>

fun laid :: "action \<Rightarrow> rat list" where
  "laid (LayCable section specs) = [section]"
| "laid x = []"

fun laid_buried :: "action \<Rightarrow> rat list" where
  "laid_buried (LayBuryCable section specs) = [section]"
| "laid_buried x = []"

fun buried :: "action \<Rightarrow> rat list" where
  "buried (BuryCable section) = [section]"
| "buried x = []"

definition lay_sections :: "event list \<Rightarrow> rat list" where
  "lay_sections evs = concat (map (laid \<circ> action) evs)"

definition lay_bury_sections :: "event list \<Rightarrow> rat list" where
  "lay_bury_sections evs = concat (map (laid_buried \<circ> action) evs)"

definition bury_sections :: "event list \<Rightarrow> rat list" where
  "bury_sections evs = concat (map (buried \<circ> action) evs)"

text \<open>
  The steps of the laying procedure in a trace: everything but transits and cable
  loading, by name.
\<close>

fun step_name :: "action \<Rightarrow> string" where
  "step_name Transit = ''transit''"
| "step_name LoadCable = ''load cable''"
| "step_name PositionOnsite = ''position onsite''"
| "step_name PrepCable = ''prep''"
| "step_name PullInCable = ''pull-in''"
| "step_name TerminateCable = ''terminate''"
| "step_name LowerCable = ''lower''"
| "step_name (LayBuryCable section specs) = ''lay-and-bury''"
| "step_name (LayCable section specs) = ''lay''"
| "step_name (BuryCable section) = ''bury''"
| "step_name (DigTrench len) = ''dig trench''"

definition procedure_steps :: "event list \<Rightarrow> string list" where
  "procedure_steps evs =
     map step_name (filter (\<lambda>x. x \<noteq> Transit \<and> x \<noteq> LoadCable) (map action evs))"

text \<open>
  The per-section sequence as the specification words it: position onsite, prep,
  pull-in, terminate, lower, lay-and-bury, prep, pull-in, terminate.
\<close>

definition spec_section_steps :: "string list" where
  "spec_section_steps =
     [''position onsite'', ''prep'', ''pull-in'', ''terminate'', ''lower'',
      ''lay-and-bury'', ''prep'', ''pull-in'', ''terminate'']"

subsection \<open>The blocks of the loops\<close>

text \<open>
  Names for the blocks of the two \<open>while True\<close> loops, used to state what a loop
  returns. Lines 226--230 and 249--251 (also 287--289) for the installation vessel:
\<close>

definition install_arrive :: "'s storage_ops \<Rightarrow> cable \<Rightarrow> 's sim \<Rightarrow> 's sim" where
  "install_arrive ops c st =
     set_install (\<lambda>v. v\<lparr>at_site := True\<rparr>)
       (yield_step InstallVessel Transit
         (set_install (\<lambda>v. v\<lparr>at_port := False\<rparr>) (load_cable_on_vessel ops c st)))"

definition install_leave :: "'s sim \<Rightarrow> 's sim" where
  "install_leave st =
     set_install (\<lambda>v. v\<lparr>at_port := True\<rparr>)
       (yield_step InstallVessel Transit (set_install (\<lambda>v. v\<lparr>at_site := False\<rparr>) st))"

text \<open>Lines 196--198 and 210--212 (also 215--217) for the trench vessel:\<close>

definition trench_arrive :: "'s sim \<Rightarrow> 's sim" where
  "trench_arrive st =
     set_trench (\<lambda>v. v\<lparr>at_site := True\<rparr>)
       (yield_step TrenchVessel Transit (set_trench (\<lambda>v. v\<lparr>at_port := False\<rparr>) st))"

definition trench_leave :: "'s sim \<Rightarrow> 's sim" where
  "trench_leave st =
     set_trench (\<lambda>v. v\<lparr>at_port := True\<rparr>)
       (yield_step TrenchVessel Transit (set_trench (\<lambda>v. v\<lparr>at_site := False\<rparr>) st))"

text \<open>
  The iterations of the installation loop at site, as a recursion over the sections
  that are left in the list at address \<open>a\<close>; \<open>install_loop_at_site\<close> below proves that the
  loop computes it.
\<close>

fun lay_all ::
  "'s storage_ops \<Rightarrow> bool \<Rightarrow> kwargs \<Rightarrow> cable \<Rightarrow> nat \<Rightarrow> section_spec list \<Rightarrow> 's sim \<Rightarrow>
   's outcome" where
  "lay_all ops burial kwargs c a [] st = Inr (install_leave st)"
| "lay_all ops burial kwargs c a ((len, num_sections, extra) # rest) st =
     (case install_sections ops burial c len (lay_specs burial kwargs extra)
             (nat num_sections) (st\<lparr>heap := (heap st)(a := rest)\<rparr>) of
        Inl e \<Rightarrow> Inl e
      | Inr st' \<Rightarrow> lay_all ops burial kwargs c a rest st')"

text \<open>
  The iterations of the trenching loop at site, as a recursion over the sections that
  are left in the list at address \<open>a\<close>; \<open>trench_loop_at_site\<close> below proves that the loop
  computes it.
\<close>

fun dig_all :: "nat \<Rightarrow> section_spec list \<Rightarrow> 's sim \<Rightarrow> 's outcome" where
  "dig_all a [] st =
     (case yield_checked TrenchVessel Transit (set_trench (\<lambda>v. v\<lparr>at_site := False\<rparr>) st) of
        Inl e \<Rightarrow> Inl e
      | Inr st2 \<Rightarrow> Inr (set_trench (\<lambda>v. v\<lparr>at_port := True\<rparr>) st2))"
| "dig_all a ((len, num_sections, extra) # rest) st =
     (case spawn_digs len (nat num_sections) (st\<lparr>heap := (heap st)(a := rest)\<rparr>) of
        Inl e \<Rightarrow> Inl e
      | Inr st' \<Rightarrow> dig_all a rest st')"

text \<open>
  The digging processes that the sections of a list ask for, one per section. When there
  is none (no section, or only counts below 1), the trenching of a cable only empties
  the list at address \<open>a\<close> (\<open>trenched\<close>) between the transits: \<open>trench_block\<close>, with the
  second transit back of lines 215--217.
\<close>

definition trench_digs :: "section_spec list \<Rightarrow> call list" where
  "trench_digs secs =
     concat (map (\<lambda>(len, num_sections, extra).
                    replicate (nat num_sections) (DigArrayCablesTrench (Num len))) secs)"

definition trenched :: "nat \<Rightarrow> 's sim \<Rightarrow> 's sim" where
  "trenched a st = st\<lparr>heap := (heap st)(a := [])\<rparr>"

definition trench_block :: "'s storage_ops \<Rightarrow> nat \<Rightarrow> 's sim \<Rightarrow> 's sim" where
  "trench_block ops a st =
     trench_leave (trench_leave (trenched a
       (trench_arrive (st\<lparr>cable_storage := reset ops (cable_storage st)\<rparr>))))"

text \<open>
  The state \<open>st'\<close> in which \<open>AgentAlreadyScheduled\<close> leaves the trenching loop that was
  at site in state \<open>st\<close>: one digging process was created, entries of the list at
  address \<open>a\<close> were popped, and no step was yielded.
\<close>

definition aborted :: "nat \<Rightarrow> 's sim \<Rightarrow> 's sim \<Rightarrow> bool" where
  "aborted a st st' =
     (log st' = log st \<and> install_vessel st' = install_vessel st \<and>
      burial_vessel st' = burial_vessel st \<and> cable_storage st' = cable_storage st \<and>
      to_bury st' = to_bury st \<and> heap_shrinks {a} st st' \<and>
      (\<exists>len. spawned st' = spawned st @ [DigArrayCablesTrench (Num len)]))"

text \<open>
  The state in which \<open>setup_simulation\<close> starts the process, for a store \<open>h\<close> that
  already holds the copied lists.
\<close>

definition initial_sim :: "'s \<Rightarrow> config \<Rightarrow> (nat \<Rightarrow> section_spec list) \<Rightarrow> 's sim" where
  "initial_sim s0 cfg h =
     \<lparr>install_vessel = initial_vessel,
      cable_storage = s0,
      burial_vessel = (if array_cable_bury_vessel cfg then Some initial_vessel else None),
      trench_vessel = (if array_cable_trench_vessel cfg then Some initial_vessel else None),
      heap = h,
      to_bury = [],
      log = [],
      spawned = []\<rparr>"

text \<open>
  The body of a process that was created without a yield, run from state \<open>st\<close>, and
  whether the argument of a digging process is a number.
\<close>

fun run_call :: "call \<Rightarrow> 's sim \<Rightarrow> 's outcome" where
  "run_call (DigArrayCablesTrench v) st = dig_array_cables_trench v st"
| "run_call (BuryArrayCables sections) st = Inr (bury_array_cables sections st)"

fun number_arg :: "call \<Rightarrow> bool" where
  "number_arg (DigArrayCablesTrench (Num x)) = True"
| "number_arg (DigArrayCablesTrench (Lst xs)) = False"
| "number_arg (BuryArrayCables sections) = True"

text \<open>A created process is a trench digging process.\<close>

fun is_dig :: "call \<Rightarrow> bool" where
  "is_dig (DigArrayCablesTrench v) = True"
| "is_dig (BuryArrayCables sections) = False"

text \<open>
  The invariant of the laying loops when a burial vessel is configured: nothing was laid
  and buried in one step, nothing was buried yet, and \<open>to_bury\<close> holds the sections laid
  so far, in order.
\<close>

definition bury_inv :: "'s sim \<Rightarrow> bool" where
  "bury_inv st =
     (lay_bury_sections (log st) = [] \<and> bury_sections (log st) = [] \<and>
      to_bury st = lay_sections (log st))"

text \<open>
  The trace as a sequence of procedure steps: transits and cable loading are left out,
  a laying step is seen with its name and its keyword arguments (not with the section it
  lays), every other step with its name. \<open>section_views\<close> is what one section
  contributes, \<open>sections_views\<close> what the sections of one cable contribute.
\<close>

fun step_view :: "action \<Rightarrow> (string \<times> kwargs option) list" where
  "step_view Transit = []"
| "step_view LoadCable = []"
| "step_view (LayBuryCable section specs) = [(''lay-and-bury'', Some specs)]"
| "step_view (LayCable section specs) = [(''lay'', Some specs)]"
| "step_view x = [(step_name x, None)]"

definition views :: "event list \<Rightarrow> (string \<times> kwargs option) list" where
  "views evs = concat (map (step_view \<circ> action) evs)"

definition section_views :: "bool \<Rightarrow> kwargs \<Rightarrow> (string \<times> kwargs option) list" where
  "section_views burial specs =
     [(''position onsite'', None), (''prep'', None), (''pull-in'', None),
      (''terminate'', None), (''lower'', None),
      (if burial then (''lay'', Some specs) else (''lay-and-bury'', Some specs)),
      (''prep'', None), (''pull-in'', None), (''terminate'', None)]"

definition sections_views ::
  "bool \<Rightarrow> kwargs \<Rightarrow> section_spec list \<Rightarrow> (string \<times> kwargs option) list" where
  "sections_views burial kwargs secs =
     concat (map (\<lambda>(len, num_sections, extra).
                    concat (replicate (nat num_sections)
                              (section_views burial (lay_specs burial kwargs extra)))) secs)"

text \<open>The laying steps of a trace: which step function was called, with which arguments.\<close>

fun lay_call :: "string \<times> kwargs option \<Rightarrow> (string \<times> kwargs) list" where
  "lay_call (name, None) = []"
| "lay_call (name, Some specs) = [(name, specs)]"

definition lay_calls :: "event list \<Rightarrow> (string \<times> kwargs) list" where
  "lay_calls evs = concat (map lay_call (views evs))"

section \<open>Project manager and simulation kernel\<close>

text \<open>
  The project manager (\<open>ORBIT/manager.py\<close>) and the simulation kernel (\<open>ORBIT/core\<close> and
  the scheduler library it builds on) are not under src/: only their tests are. They are
  modelled here from the specification, every definition saying which part it models.
\<close>

subsection \<open>Phase names\<close>

text \<open>
  Modelled from the spec: the separators that set a distinguishing suffix off from a
  phase class name (\<open>ProjectManager.find_key_match\<close> is missing); the specification's
  examples use an underscore and a space.
\<close>

definition separators :: "char list" where
  "separators = ''_ ''"

text \<open>
  Modelled from the spec: the deterministic normalisation of a phase name
  (\<open>ProjectManager.find_key_match\<close> is missing): the suffix is stripped at the first
  separator.
\<close>

definition strip_suffix :: "string \<Rightarrow> string" where
  "strip_suffix target = takeWhile (\<lambda>c. c \<notin> set separators) target"

text \<open>
  Modelled from the spec: \<open>ProjectManager.find_key_match\<close> (missing), resolution of a
  name against the registry of phase classes, a dict from class name to class. The
  stripped name is looked up; no match is \<open>None\<close>.
\<close>

definition find_key_match :: "(string \<times> 'p) list \<Rightarrow> string \<Rightarrow> 'p option" where
  "find_key_match phase_dict target = map_of phase_dict (strip_suffix target)"

text \<open>
  Modelled from the spec: the errors of the project manager (\<open>ORBIT/manager.py\<close> is
  missing): an unresolved phase name, and requested dates outside the weather profile.
\<close>

datatype manager_error = PhaseNotFound string | WeatherProfileError | KernelError string

text \<open>
  Modelled from the spec: the lookup of a phase class by the project manager (missing):
  no match raises the phase-not-found error.
\<close>

definition get_phase_class :: "(string \<times> 'p) list \<Rightarrow> string \<Rightarrow> manager_error + 'p" where
  "get_phase_class phase_dict target =
     (case find_key_match phase_dict target of
        None \<Rightarrow> Inl (PhaseNotFound target)
      | Some cls \<Rightarrow> Inr cls)"



text \<open>The registry of \<open>test_find_key_match\<close>, a class standing for itself.\<close>

definition test_phase_dict :: "(string \<times> string) list" where
  "test_phase_dict =
     [(''MonopileInstallation'', ''class MonopileInstallation''),
      (''TurbineInstallation'', ''class TurbineInstallation''),
      (''SpecificTurbineInstallation'', ''class SpecificTurbineInstallation'')]"

subsection \<open>Weather gate\<close>

text \<open>
  Modelled from the spec: a weather record and a weather profile (section 3; the
  weather classes are missing). A profile is an ordered sequence of records at a fixed
  sampling step, here one hour; the record at index \<open>i\<close> is the sample at time \<open>i\<close>.
\<close>

record weather_record =
  windspeed :: rat
  waveheight :: rat

type_synonym profile = "weather_record list"

text \<open>
  Modelled from the spec: the operating limits of a step (section 4.2, the arguments
  \<open>max_windspeed\<close> and \<open>max_waveheight\<close> of \<open>acquire\<close>).
\<close>

record limits =
  max_windspeed :: rat
  max_waveheight :: rat

text \<open>
  Modelled from the spec: what a step waits on before it elapses its duration (section
  4.1; the step classes are missing): nothing, a weather window, or a resource becoming
  available.
\<close>

datatype gate = Ungated | Weather limits | Resource string

text \<open>
  Modelled from the spec: a record satisfies both limits (section 4.2).
\<close>

definition within_limits :: "limits \<Rightarrow> weather_record \<Rightarrow> bool" where
  "within_limits lm w = (windspeed w \<le> max_windspeed lm \<and> waveheight w \<le> max_waveheight lm)"

text \<open>
  Modelled from the spec: a compliant window (section 4.2): every record in
  \<open>[start, start + dur)\<close> is in the profile and satisfies both limits.
\<close>

definition window_ok :: "profile \<Rightarrow> limits \<Rightarrow> rat \<Rightarrow> rat \<Rightarrow> bool" where
  "window_ok prof lm start dur =
     list_all (\<lambda>i. i < length prof \<and> within_limits lm (prof ! i))
       [nat \<lceil>start\<rceil> ..< nat \<lceil>start + dur\<rceil>]"

text \<open>
  Modelled from the spec: the scan of the weather gate (section 4.2, the class is
  missing): forward from \<open>now\<close> at the sampling step, the first fully compliant window;
  \<open>None\<close> when there is none within the remaining profile length.
\<close>

definition weather_acquire :: "profile \<Rightarrow> limits \<Rightarrow> rat \<Rightarrow> rat \<Rightarrow> rat option" where
  "weather_acquire prof lm now dur =
     map_option (\<lambda>k. now + of_nat k)
       (find (\<lambda>k. window_ok prof lm (now + of_nat k) dur)
          [0 ..< Suc (length prof - nat \<lfloor>now\<rfloor>)])"

subsection \<open>Clock, processes and action log\<close>

text \<open>
  Modelled from the spec: a step of a work plan (sections 4.1 and 4.4; the step classes
  are missing): a name, a duration and what it waits on.
\<close>

record step =
  step_name :: string
  step_duration :: rat
  step_gate :: gate

text \<open>
  Modelled from the spec: an action of the log (section 3: time_end, duration, cost,
  agent_id, action_name; the phase is added by the project manager).
\<close>

record row =
  time_end :: rat
  duration :: rat
  cost :: rat
  agent_id :: string
  action_name :: string

text \<open>
  Modelled from the spec: what a run is given besides its agents (sections 4.2 and 4.3;
  the environment class is missing): the weather profile, if any, and for a resource and
  a time, the time at which the resource becomes available to a request made then
  (contention with other agents is not modelled further than that).
\<close>

record kernel =
  weather :: "profile option"
  available :: "string \<Rightarrow> rat \<Rightarrow> rat"

text \<open>
  Modelled from the spec: \<open>acquire(now, required_duration, limits)\<close> (section 4.2, the
  class is missing), the time at which the step may start: \<open>now\<close> when there is no gate
  or no profile, the start of the first compliant window, or the time the resource is
  available (never before \<open>now\<close>). \<open>None\<close> is the scheduling-exhaustion error.
\<close>

definition acquire :: "kernel \<Rightarrow> gate \<Rightarrow> rat \<Rightarrow> rat \<Rightarrow> rat option" where
  "acquire k g now dur =
     (case g of
        Ungated \<Rightarrow> Some now
      | Resource r \<Rightarrow> Some (max now (available k r now))
      | Weather lm \<Rightarrow>
          (case weather k of
             None \<Rightarrow> Some now
           | Some prof \<Rightarrow> weather_acquire prof lm now dur))"

text \<open>
  Modelled from the spec: an agent with its work plan (sections 2 and 4.4; the vessel
  class is missing), and the process that drives it (section 4.1): the time up to which
  the agent has worked, whether the wait of its next step is over, and the steps left.
\<close>

record sim_agent =
  agent_name :: string
  agent_rate :: rat
  work_plan :: "step list"

record proc =
  proc_name :: string
  proc_rate :: rat
  clock :: rat
  cleared :: bool
  todo :: "step list"

text \<open>
  Modelled from the spec: the action appended on completion of a step (section 4.1):
  it ends a duration after the agent's clock and costs the agent's rate times the
  duration.
\<close>

definition action_row :: "proc \<Rightarrow> string \<Rightarrow> rat \<Rightarrow> row" where
  "action_row p name d =
     \<lparr>time_end = clock p + d, duration = d, cost = proc_rate p * d,
      agent_id = proc_name p, action_name = name\<rparr>"

text \<open>
  Modelled from the spec: completion of a step whose wait is over (section 4.1).
\<close>

definition complete_step :: "proc \<Rightarrow> step \<Rightarrow> step list \<Rightarrow> row \<times> proc" where
  "complete_step p s rest =
     (action_row p (step_name s) (step_duration s),
      p\<lparr>clock := clock p + step_duration s, cleared := False, todo := rest\<rparr>)"

text \<open>
  Modelled from the spec: the next completion of a process (sections 4.1 and 4.2, the
  scheduler is missing). The caller is suspended until the start time that \<open>acquire\<close>
  returns; a non-zero delay is logged as an explicit delay action; then the step elapses
  its duration. No window is the error that aborts the phase.
\<close>

datatype kernel_error = WeatherExhausted string

definition next_event :: "kernel \<Rightarrow> proc \<Rightarrow> kernel_error + (row \<times> proc) option" where
  "next_event k p =
     (case todo p of
        [] \<Rightarrow> Inr None
      | s # rest \<Rightarrow>
          if cleared p then Inr (Some (complete_step p s rest))
          else (case acquire k (step_gate s) (clock p) (step_duration s) of
                  None \<Rightarrow> Inl (WeatherExhausted (step_name s))
                | Some start \<Rightarrow>
                    if start \<le> clock p then Inr (Some (complete_step p s rest))
                    else Inr (Some (action_row p ''Delay'' (start - clock p),
                                    p\<lparr>clock := start, cleared := True\<rparr>))))"

text \<open>
  Modelled from the spec: the scheduler's choice (section 4.1, missing): the minimum
  next completion among all pending processes, the first of them on a tie; that process
  is advanced.
\<close>

fun earliest :: "kernel \<Rightarrow> proc list \<Rightarrow> kernel_error + (row \<times> proc list) option" where
  "earliest k [] = Inr None"
| "earliest k (p # ps) =
     (case next_event k p of
        Inl e \<Rightarrow> Inl e
      | Inr None \<Rightarrow>
          (case earliest k ps of
             Inl e \<Rightarrow> Inl e
           | Inr None \<Rightarrow> Inr None
           | Inr (Some (r, ps')) \<Rightarrow> Inr (Some (r, p # ps')))
      | Inr (Some (r, p')) \<Rightarrow>
          (case earliest k ps of
             Inl e \<Rightarrow> Inl e
           | Inr None \<Rightarrow> Inr (Some (r, p' # ps))
           | Inr (Some (r2, ps')) \<Rightarrow>
               if time_end r \<le> time_end r2 then Inr (Some (r, p' # ps))
               else Inr (Some (r2, p # ps'))))"

text \<open>The work a process has left: two units a step, one less once its wait is over.\<close>

definition work_left :: "proc \<Rightarrow> nat" where
  "work_left p = 2 * length (todo p) + (if cleared p then 0 else 1)"

lemma next_event_work_left:
  "next_event k p = Inr (Some (r, p')) \<Longrightarrow> work_left p' < work_left p"
  by (auto simp: next_event_def complete_step_def work_left_def
      split: list.splits if_splits option.splits)

lemma earliest_work_left:
  "earliest k ps = Inr (Some (r, ps')) \<Longrightarrow>
   sum_list (map work_left ps') < sum_list (map work_left ps)"
proof (induction ps arbitrary: r ps')
  case Nil
  then show ?case by simp
next
  case (Cons p ps)
  then show ?case
    by (auto split: sum.splits option.splits if_splits prod.splits
        dest: next_event_work_left)
qed

text \<open>
  Modelled from the spec: the run of the scheduler (section 4.1, missing): it advances
  to the next completion and appends the action to the log, until no process has
  further work or a fatal error is raised.
\<close>

function run :: "kernel \<Rightarrow> proc list \<Rightarrow> row list \<Rightarrow> kernel_error + row list" where
  "run k ps logged =
     (case earliest k ps of
        Inl e \<Rightarrow> Inl e
      | Inr None \<Rightarrow> Inr logged
      | Inr (Some (r, ps')) \<Rightarrow> run k ps' (logged @ [r]))"
  by pat_completeness auto
termination
  by (relation "measure (\<lambda>(k, ps, logged). sum_list (map work_left ps))")
    (auto dest: earliest_work_left)

text \<open>
  Modelled from the spec: a phase simulation (section 2, missing): every agent starts
  its plan at the phase's time 0, with an empty log.
\<close>

definition start_proc :: "sim_agent \<Rightarrow> proc" where
  "start_proc a =
     \<lparr>proc_name = agent_name a, proc_rate = agent_rate a, clock = 0, cleared = False,
      todo = work_plan a\<rparr>"

definition simulate :: "kernel \<Rightarrow> sim_agent list \<Rightarrow> kernel_error + row list" where
  "simulate k agents = run k (map start_proc agents) []"

text \<open>
  The actions of one agent, and their contiguity from time \<open>c\<close>: each ends its own
  duration after the one before.
\<close>

definition rows_of :: "string \<Rightarrow> row list \<Rightarrow> row list" where
  "rows_of name rows = filter (\<lambda>r. agent_id r = name) rows"

fun contiguous :: "rat \<Rightarrow> row list \<Rightarrow> bool" where
  "contiguous c [] = True"
| "contiguous c (r # rs) = (time_end r = c + duration r \<and> contiguous (time_end r) rs)"

definition end_of :: "row list \<Rightarrow> rat" where
  "end_of rows = (if rows = [] then 0 else time_end (last rows))"

text \<open>
  The invariant of the scheduler: the log of every process is contiguous from 0 and ends
  at the clock of the process, every logged duration is non-negative and belongs to a
  process, and no step left has a negative duration.
\<close>

definition in_step :: "proc list \<Rightarrow> row list \<Rightarrow> bool" where
  "in_step ps rows =
     ((\<forall>p \<in> set ps. contiguous 0 (rows_of (proc_name p) rows) \<and>
                     clock p = end_of (rows_of (proc_name p) rows)) \<and>
      (\<forall>r \<in> set rows. 0 \<le> duration r \<and> agent_id r \<in> proc_name ` set ps) \<and>
      (\<forall>p \<in> set ps. \<forall>s \<in> set (todo p). 0 \<le> step_duration s))"

text \<open>
  A run on a concrete input: an installation vessel that transits and then installs in
  a weather window, and a feeder that waits for a crane and loads.
\<close>

definition calm :: weather_record where "calm = \<lparr>windspeed = 5, waveheight = 1\<rparr>"
definition storm :: weather_record where "storm = \<lparr>windspeed = 20, waveheight = 4\<rparr>"

definition demo_kernel :: kernel where
  "demo_kernel =
     \<lparr>weather = Some [calm, calm, storm, storm, calm, calm, calm, calm],
      available = (\<lambda>r t. 1 / 2)\<rparr>"

definition demo_agents :: "sim_agent list" where
  "demo_agents =
     [\<lparr>agent_name = ''WTIV'', agent_rate = 100,
       work_plan =
         [\<lparr>step_name = ''Transit'', step_duration = 2, step_gate = Ungated\<rparr>,
          \<lparr>step_name = ''Install'', step_duration = 3,
           step_gate = Weather \<lparr>max_windspeed = 10, max_waveheight = 2\<rparr>\<rparr>]\<rparr>,
      \<lparr>agent_name = ''Feeder'', agent_rate = 50,
       work_plan =
         [\<lparr>step_name = ''Load'', step_duration = 1, step_gate = Resource ''crane''\<rparr>]\<rparr>]"

definition demo_log :: "row list" where
  "demo_log =
     [\<lparr>time_end = 1 / 2, duration = 1 / 2, cost = 25, agent_id = ''Feeder'',
       action_name = ''Delay''\<rparr>,
      \<lparr>time_end = 3 / 2, duration = 1, cost = 50, agent_id = ''Feeder'',
       action_name = ''Load''\<rparr>,
      \<lparr>time_end = 2, duration = 2, cost = 200, agent_id = ''WTIV'',
       action_name = ''Transit''\<rparr>,
      \<lparr>time_end = 4, duration = 2, cost = 200, agent_id = ''WTIV'',
       action_name = ''Delay''\<rparr>,
      \<lparr>time_end = 7, duration = 3, cost = 300, agent_id = ''WTIV'',
       action_name = ''Install''\<rparr>]"

subsection \<open>Project schedule\<close>

text \<open>
  A calendar date as \<open>test_phase_start_dates\<close> writes it (\<open>"%m/%d/%Y"\<close>), and the
  proleptic Gregorian ordinal of Python's \<open>datetime\<close>: the \<open>days\<close> of the difference of
  two dates, which the tests multiply by 24, is the difference of the ordinals.
\<close>

record date =
  month :: nat
  day :: nat
  year :: nat

definition is_leap :: "nat \<Rightarrow> bool" where
  "is_leap y = (y mod 4 = 0 \<and> (y mod 100 \<noteq> 0 \<or> y mod 400 = 0))"

definition days_in_month :: "nat \<Rightarrow> nat \<Rightarrow> nat" where
  "days_in_month y m =
     (if m = 2 then (if is_leap y then 29 else 28)
      else if m = 4 \<or> m = 6 \<or> m = 9 \<or> m = 11 then 30 else 31)"

definition days_before_month :: "nat \<Rightarrow> nat \<Rightarrow> nat" where
  "days_before_month y m = sum_list (map (days_in_month y) [1 ..< m])"

definition days_before_year :: "nat \<Rightarrow> int" where
  "days_before_year y =
     (let p = int y - 1 in p * 365 + p div 4 - p div 100 + p div 400)"

definition to_ordinal :: "date \<Rightarrow> int" where
  "to_ordinal d =
     days_before_year (year d) + int (days_before_month (year d) (month d)) + int (day d)"

definition days_between :: "date \<Rightarrow> date \<Rightarrow> int" where
  "days_between d1 d2 = to_ordinal d2 - to_ordinal d1"

text \<open>
  Modelled from the spec: a row of the project-level table (section 4.5, aggregation;
  \<open>ORBIT/manager.py\<close> is missing): a row of a phase's action log and the phase it
  belongs to, the time on the project timeline.
\<close>

record project_row = row +
  phase :: string

text \<open>
  Modelled from the spec: the weather profile handed to the project manager (missing):
  hourly records from the first hour of \<open>first_day\<close>.
\<close>

record project_weather =
  first_day :: date
  records :: profile

text \<open>
  Modelled from the spec: aggregation of a phase's log into the project-level table
  (section 4.5; missing): the phase's own time shifted by the offset of the phase.
\<close>

definition shift_row :: "string \<Rightarrow> rat \<Rightarrow> row \<Rightarrow> project_row" where
  "shift_row name offset r =
     \<lparr>time_end = time_end r + offset, duration = duration r, cost = cost r,
      agent_id = agent_id r, action_name = action_name r, phase = name\<rparr>"

text \<open>
  Modelled from the spec: the offset of a phase pinned to an absolute start date
  (section 4.5; missing), in hours from the origin of the project timeline.
\<close>

definition phase_offset :: "date \<Rightarrow> date \<Rightarrow> rat" where
  "phase_offset origin start = of_int (days_between origin start * 24)"

text \<open>
  Modelled from the spec: the offset slice of the weather profile for a phase (section
  4.5; missing): the records from the start date on; a start date outside the coverage
  of the profile is the weather-bounds error.
\<close>

definition phase_weather :: "project_weather option \<Rightarrow> date \<Rightarrow> manager_error + profile option" where
  "phase_weather w start =
     (case w of
        None \<Rightarrow> Inr None
      | Some pw \<Rightarrow>
          (let hours = days_between (first_day pw) start * 24
           in if hours < 0 \<or> int (length (records pw)) \<le> hours then Inl WeatherProfileError
              else Inr (Some (drop (nat hours) (records pw)))))"

text \<open>
  Modelled from the spec: what the project manager holds (\<open>ORBIT/manager.py\<close> is
  missing): the registry of phases, a phase being the agents the kernel runs, the
  weather profile if any, the availability of resources, and the date at time 0 of the
  project timeline.
\<close>

record project =
  phase_registry :: "(string \<times> sim_agent list) list"
  project_weather :: "project_weather option"
  resources :: "string \<Rightarrow> rat \<Rightarrow> rat"
  origin :: date

text \<open>
  Modelled from the spec: the run of one phase of a date-keyed schedule (section 4.5;
  missing): the phase is resolved by name, simulated on its own clock from 0 against
  its own slice of the weather, and its log is aggregated at its offset.
\<close>

definition run_install_phase :: "project \<Rightarrow> string \<times> date \<Rightarrow> manager_error + project_row list" where
  "run_install_phase pm entry =
     (case entry of (name, start) \<Rightarrow>
        (case get_phase_class (phase_registry pm) name of
           Inl e \<Rightarrow> Inl e
         | Inr agents \<Rightarrow>
             (case phase_weather (project_weather pm) start of
                Inl e \<Rightarrow> Inl e
              | Inr w \<Rightarrow>
                  (case simulate \<lparr>weather = w, available = resources pm\<rparr> agents of
                     Inl (WeatherExhausted s) \<Rightarrow> Inl (KernelError s)
                   | Inr rows \<Rightarrow>
                       Inr (map (shift_row name (phase_offset (origin pm) start)) rows)))))"

text \<open>
  Modelled from the spec: the run of a date-keyed schedule (section 4.5; missing):
  every phase independently, an error unwinding the run.
\<close>

fun run_multiple_phases_overlapping ::
  "project \<Rightarrow> (string \<times> date) list \<Rightarrow> manager_error + project_row list" where
  "run_multiple_phases_overlapping pm [] = Inr []"
| "run_multiple_phases_overlapping pm (entry # entries) =
     (case run_install_phase pm entry of
        Inl e \<Rightarrow> Inl e
      | Inr rows \<Rightarrow>
          (case run_multiple_phases_overlapping pm entries of
             Inl e \<Rightarrow> Inl e
           | Inr later \<Rightarrow> Inr (rows @ later)))"

text \<open>
  The first row of a phase in the project-level table, \<open>df.loc[df["phase"] == name].iloc[0]\<close>
  in the tests, and \<open>time - duration\<close> of a row.
\<close>

definition first_action :: "string \<Rightarrow> project_row list \<Rightarrow> project_row option" where
  "first_action name table = find (\<lambda>r. phase r = name) table"

definition action_start :: "project_row \<Rightarrow> rat" where
  "action_start r = time_end r - duration r"

text \<open>
  Agents of a phase have distinct names and no step has a negative duration.
\<close>

definition well_formed :: "project \<Rightarrow> bool" where
  "well_formed pm =
     list_all (\<lambda>(name, agents).
        distinct (map agent_name agents) \<and>
        list_all (\<lambda>a. list_all (\<lambda>s. 0 \<le> step_duration s) (work_plan a)) agents)
       (phase_registry pm)"

text \<open>
  A project on concrete inputs: a monopile phase whose only step needs a weather window,
  and the turbine phase of the agents above; the dates of \<open>test_phase_start_dates\<close>,
  and a profile that starts with a storm.
\<close>

definition march_1 :: date where "march_1 = \<lparr>month = 3, day = 1, year = 2010\<rparr>"
definition may_1 :: date where "may_1 = \<lparr>month = 5, day = 1, year = 2010\<rparr>"

definition demo_project :: "project_weather option \<Rightarrow> project" where
  "demo_project w =
     \<lparr>phase_registry =
        [(''MonopileInstallation'',
          [\<lparr>agent_name = ''WTIV'', agent_rate = 100,
            work_plan =
              [\<lparr>step_name = ''Drive Monopile'', step_duration = 3 / 2,
                step_gate = Weather \<lparr>max_windspeed = 10, max_waveheight = 2\<rparr>\<rparr>]\<rparr>]),
         (''TurbineInstallation'', demo_agents)],
      project_weather = w,
      resources = (\<lambda>r t. 1 / 2),
      origin = march_1\<rparr>"

definition demo_schedule :: "(string \<times> date) list" where
  "demo_schedule = [(''MonopileInstallation'', march_1), (''TurbineInstallation'', may_1)]"

definition march_3 :: date where "march_3 = \<lparr>month = 3, day = 3, year = 2010\<rparr>"

definition stormy_start :: project_weather where
  "stormy_start = \<lparr>first_day = march_1, records = storm # storm # replicate 60 calm\<rparr>"

definition short_schedule :: "(string \<times> date) list" where
  "short_schedule = [(''MonopileInstallation'', march_1), (''TurbineInstallation'', march_3)]"

definition demo_table :: "project_row list" where
  "demo_table =
     [\<lparr>time_end = 3 / 2, duration = 3 / 2, cost = 150, agent_id = ''WTIV'',
       action_name = ''Drive Monopile'', phase = ''MonopileInstallation''\<rparr>,
      \<lparr>time_end = 2929 / 2, duration = 1 / 2, cost = 25, agent_id = ''Feeder'',
       action_name = ''Delay'', phase = ''TurbineInstallation''\<rparr>,
      \<lparr>time_end = 2931 / 2, duration = 1, cost = 50, agent_id = ''Feeder'',
       action_name = ''Load'', phase = ''TurbineInstallation''\<rparr>,
      \<lparr>time_end = 1466, duration = 2, cost = 200, agent_id = ''WTIV'',
       action_name = ''Transit'', phase = ''TurbineInstallation''\<rparr>,
      \<lparr>time_end = 1469, duration = 3, cost = 300, agent_id = ''WTIV'',
       action_name = ''Install'', phase = ''TurbineInstallation''\<rparr>]"

definition short_table :: "project_row list" where
  "short_table =
     [\<lparr>time_end = 2, duration = 2, cost = 200, agent_id = ''WTIV'',
       action_name = ''Delay'', phase = ''MonopileInstallation''\<rparr>,
      \<lparr>time_end = 7 / 2, duration = 3 / 2, cost = 150, agent_id = ''WTIV'',
       action_name = ''Drive Monopile'', phase = ''MonopileInstallation''\<rparr>,
      \<lparr>time_end = 97 / 2, duration = 1 / 2, cost = 25, agent_id = ''Feeder'',
       action_name = ''Delay'', phase = ''TurbineInstallation''\<rparr>,
      \<lparr>time_end = 99 / 2, duration = 1, cost = 50, agent_id = ''Feeder'',
       action_name = ''Load'', phase = ''TurbineInstallation''\<rparr>,
      \<lparr>time_end = 50, duration = 2, cost = 200, agent_id = ''WTIV'',
       action_name = ''Transit'', phase = ''TurbineInstallation''\<rparr>,
      \<lparr>time_end = 53, duration = 3, cost = 300, agent_id = ''WTIV'',
       action_name = ''Install'', phase = ''TurbineInstallation''\<rparr>]"

section \<open>Properties of the array cable installation\<close>

subsection \<open>What the steps and the loops compute\<close>

lemma keeps_refl: "keeps st st"
  by (simp add: keeps_def)

lemma keeps_trans: "keeps st st' \<Longrightarrow> keeps st' st'' \<Longrightarrow> keeps st st''"
  by (simp add: keeps_def)

lemma state_of_simps [simp]: "state_of (Inl (e, st)) = st" "state_of (Inr st) = st"
  by (simp_all add: state_of_def)

lemma yield_step_sel [simp]:
  "install_vessel (yield_step a x st) = install_vessel st"
  "cable_storage (yield_step a x st) = cable_storage st"
  "burial_vessel (yield_step a x st) = burial_vessel st"
  "trench_vessel (yield_step a x st) = trench_vessel st"
  "heap (yield_step a x st) = heap st"
  "to_bury (yield_step a x st) = to_bury st"
  "spawned (yield_step a x st) = spawned st"
  "log (yield_step a x st) = log st @
     [\<lparr>agent = a, action = x, install_flags = install_vessel st,
       burial_flags = burial_vessel st, trench_flags = trench_vessel st\<rparr>]"
  by (simp_all add: yield_step_def)

lemma set_install_sel [simp]:
  "install_vessel (set_install f st) = f (install_vessel st)"
  "cable_storage (set_install f st) = cable_storage st"
  "burial_vessel (set_install f st) = burial_vessel st"
  "trench_vessel (set_install f st) = trench_vessel st"
  "heap (set_install f st) = heap st"
  "to_bury (set_install f st) = to_bury st"
  "spawned (set_install f st) = spawned st"
  "log (set_install f st) = log st"
  by (simp_all add: set_install_def)

lemma set_trench_sel [simp]:
  "install_vessel (set_trench f st) = install_vessel st"
  "cable_storage (set_trench f st) = cable_storage st"
  "burial_vessel (set_trench f st) = burial_vessel st"
  "trench_vessel (set_trench f st) = map_option f (trench_vessel st)"
  "heap (set_trench f st) = heap st"
  "to_bury (set_trench f st) = to_bury st"
  "spawned (set_trench f st) = spawned st"
  "log (set_trench f st) = log st"
  by (simp_all add: set_trench_def)

lemma load_cable_on_vessel_sel [simp]:
  "install_vessel (load_cable_on_vessel ops c st) = install_vessel st"
  "cable_storage (load_cable_on_vessel ops c st) = load_cable ops (cable_storage st) c"
  "burial_vessel (load_cable_on_vessel ops c st) = burial_vessel st"
  "trench_vessel (load_cable_on_vessel ops c st) = trench_vessel st"
  "heap (load_cable_on_vessel ops c st) = heap st"
  "to_bury (load_cable_on_vessel ops c st) = to_bury st"
  "spawned (load_cable_on_vessel ops c st) = spawned st"
  "log (load_cable_on_vessel ops c st) = log st @
     [\<lparr>agent = InstallVessel, action = LoadCable, install_flags = install_vessel st,
       burial_flags = burial_vessel st, trench_flags = trench_vessel st\<rparr>]"
  by (simp_all add: load_cable_on_vessel_def yield_step_def)

lemma scheduled_upd [simp]:
  "scheduled a (yield_step b x st) = scheduled a st"
  "scheduled a (set_install f st) = scheduled a st"
  "scheduled a (set_trench f st) = scheduled a st"
  "scheduled a (st\<lparr>heap := h\<rparr>) = scheduled a st"
  "scheduled a (st\<lparr>cable_storage := s\<rparr>) = scheduled a st"
  "scheduled a (st\<lparr>to_bury := tb\<rparr>) = scheduled a st"
  by (simp_all add: scheduled_def)

lemma installation_vessel_never_scheduled: "\<not> scheduled InstallVessel st"
proof -
  have "call_agent call \<noteq> InstallVessel" for call by (cases call) simp_all
  then show ?thesis by (simp add: scheduled_def list_ex_iff)
qed

lemma scheduled_dug [simp]:
  "scheduled TrenchVessel (st\<lparr>spawned := spawned st @ [DigArrayCablesTrench v]\<rparr>)"
  by (simp add: scheduled_def)

lemma yield_checked_fresh [simp]:
  "\<not> scheduled a st \<Longrightarrow> yield_checked a x st = Inr (yield_step a x st)"
  by (simp add: yield_checked_def)

lemma yield_checked_scheduled [simp]:
  "scheduled a st \<Longrightarrow> yield_checked a x st = Inl (AgentAlreadyScheduled, st)"
  by (simp add: yield_checked_def)

lemma spawn_digs_keeps:
  "spawn_digs len n st = Inr st' \<Longrightarrow>
   install_vessel st' = install_vessel st \<and> cable_storage st' = cable_storage st \<and>
   burial_vessel st' = burial_vessel st \<and> trench_vessel st' = trench_vessel st \<and>
   heap st' = heap st \<and> to_bury st' = to_bury st \<and> log st' = log st"
  by (induction n arbitrary: st) (auto split: if_splits)

lemma spawn_digs_scheduled:
  "scheduled TrenchVessel st \<Longrightarrow>
   spawn_digs len n st = (if n = 0 then Inr st else Inl (AgentAlreadyScheduled, st))"
  by (cases n) simp_all

lemma spawn_digs_fresh:
  assumes "\<not> scheduled TrenchVessel st"
  shows "spawn_digs len n st =
    (if n = 0 then Inr st
     else if n = 1 then Inr (st\<lparr>spawned := spawned st @ [DigArrayCablesTrench (Num len)]\<rparr>)
     else Inl (AgentAlreadyScheduled,
               st\<lparr>spawned := spawned st @ [DigArrayCablesTrench (Num len)]\<rparr>))"
proof (cases n)
  case 0
  then show ?thesis by simp
next
  case (Suc k)
  with assms show ?thesis by (simp add: spawn_digs_scheduled)
qed

lemma lay_procedure_sel [simp]:
  "install_vessel (lay_procedure burial specs section st) = install_vessel st"
  "cable_storage (lay_procedure burial specs section st) = cable_storage st"
  "burial_vessel (lay_procedure burial specs section st) = burial_vessel st"
  "trench_vessel (lay_procedure burial specs section st) = trench_vessel st"
  "heap (lay_procedure burial specs section st) = heap st"
  "spawned (lay_procedure burial specs section st) = spawned st"
  "to_bury (lay_procedure burial specs section st) =
     (if burial then to_bury st @ [section] else to_bury st)"
  by (simp_all add: lay_procedure_def Let_def)

lemma lay_procedure_actions [simp]:
  "map action (log (lay_procedure burial specs section st)) =
     map action (log st) @
       [PositionOnsite, PrepCable, PullInCable, TerminateCable, LowerCable,
        (if burial then LayCable section specs else LayBuryCable section specs),
        PrepCable, PullInCable, TerminateCable]"
  by (simp add: lay_procedure_def Let_def)

lemma lay_procedure_length [simp]:
  "length (log (lay_procedure burial specs section st)) = length (log st) + 9"
  by (simp add: lay_procedure_def Let_def)

lemma lay_procedure_keeps: "keeps st (lay_procedure burial specs section st)"
  by (simp add: keeps_def)

lemma install_section_keeps: "keeps st (state_of (install_section ops burial c len specs st))"
  by (auto simp: keeps_def install_section_def Let_def
      split: sum.splits error.splits prod.splits)

lemma install_sections_keeps:
  "keeps st (state_of (install_sections ops burial c len specs k st))"
proof (induction k arbitrary: st)
  case 0
  show ?case by (simp add: keeps_refl)
next
  case (Suc k)
  show ?case
  proof (cases "install_section ops burial c len specs st")
    case (Inl x)
    with install_section_keeps [of st ops burial c len specs] show ?thesis
      by (cases x) simp
  next
    case (Inr st1)
    with install_section_keeps [of st ops burial c len specs] have "keeps st st1" by simp
    with Suc.IH [of st1] Inr show ?thesis by (simp add: keeps_trans)
  qed
qed

lemma install_loop_at_site:
  "at_site (install_vessel st) \<Longrightarrow> \<not> at_port (install_vessel st) \<Longrightarrow>
   heap st a = secs \<Longrightarrow>
   install_loop ops burial kwargs c a st = Some (lay_all ops burial kwargs c a secs st)"
proof (induction secs arbitrary: st)
  case Nil
  then show ?case
    by (subst install_loop.simps) (simp add: Let_def install_leave_def)
next
  case (Cons sec rest)
  obtain len num extra where sec: "sec = (len, num, extra)" by (cases sec)
  let ?st0 = "st\<lparr>heap := (heap st)(a := rest)\<rparr>"
  let ?r = "install_sections ops burial c len (lay_specs burial kwargs extra) (nat num) ?st0"
  show ?case
  proof (cases ?r)
    case (Inl x)
    with Cons.prems sec show ?thesis
      by (subst install_loop.simps) simp
  next
    case (Inr st1)
    from install_sections_keeps [of ?st0 ops burial c len "lay_specs burial kwargs extra" "nat num"] Inr
    have "keeps ?st0 st1" by simp
    with Cons.prems have "at_site (install_vessel st1)" "\<not> at_port (install_vessel st1)"
      "heap st1 a = rest"
      by (simp_all add: keeps_def)
    from Cons.IH [OF this]
    have "install_loop ops burial kwargs c a st1 = Some (lay_all ops burial kwargs c a rest st1)" .
    with Cons.prems sec Inr show ?thesis
      by (subst install_loop.simps) simp
  qed
qed

lemma install_loop_at_port:
  assumes "at_port (install_vessel st)"
  shows "install_loop ops burial kwargs c a st =
           Some (lay_all ops burial kwargs c a (heap st a) (install_arrive ops c st))"
proof -
  let ?st4 = "install_arrive ops c st"
  have "at_site (install_vessel ?st4)" "\<not> at_port (install_vessel ?st4)"
    "heap ?st4 a = heap st a"
    by (simp_all add: install_arrive_def)
  from install_loop_at_site [OF this]
  have "install_loop ops burial kwargs c a ?st4 =
      Some (lay_all ops burial kwargs c a (heap st a) ?st4)" .
  with assms show ?thesis
    by (subst install_loop.simps) (simp add: Let_def install_arrive_def)
qed

lemma heap_shrinks_refl: "heap_shrinks A st st"
  by (simp add: heap_shrinks_def)

lemma heap_shrinks_trans:
  "heap_shrinks A st st' \<Longrightarrow> heap_shrinks A st' st'' \<Longrightarrow> heap_shrinks A st st''"
  unfolding heap_shrinks_def by (metis subset_trans)

lemma heap_shrinks_mono: "heap_shrinks A st st' \<Longrightarrow> A \<subseteq> B \<Longrightarrow> heap_shrinks B st st'"
  unfolding heap_shrinks_def by blast

lemma heap_shrinks_same: "heap st' = heap st \<Longrightarrow> heap_shrinks A st st'"
  by (simp add: heap_shrinks_def)

lemma heap_shrinks_pop:
  "heap st a = sec # rest \<Longrightarrow> heap_shrinks {a} st (st\<lparr>heap := (heap st)(a := rest)\<rparr>)"
  by (auto simp: heap_shrinks_def)

lemma heap_shrinks_empty:
  assumes "heap_shrinks A st st'" "heap st a = []"
  shows "heap st' a = []"
proof -
  from assms(1) have "set (heap st' a) \<subseteq> set (heap st a)"
    by (simp add: heap_shrinks_def)
  with assms(2) show ?thesis by simp
qed

lemma trench_loop_at_site:
  "trench_vessel st = Some tv \<Longrightarrow> at_site tv \<Longrightarrow> \<not> at_port tv \<Longrightarrow> heap st a = secs \<Longrightarrow>
   trench_loop a st = Some (dig_all a secs st)"
proof (induction secs arbitrary: st)
  case Nil
  then show ?case
    by (subst trench_loop.simps) (simp split: sum.splits)
next
  case (Cons sec rest)
  obtain len num extra where sec: "sec = (len, num, extra)" by (cases sec)
  let ?st0 = "st\<lparr>heap := (heap st)(a := rest)\<rparr>"
  show ?case
  proof (cases "spawn_digs len (nat num) ?st0")
    case (Inl x)
    with Cons.prems sec show ?thesis
      by (subst trench_loop.simps) simp
  next
    case (Inr st1)
    from spawn_digs_keeps [OF Inr] Cons.prems
    have "trench_vessel st1 = Some tv" "heap st1 a = rest" by simp_all
    from Cons.IH [OF this(1) Cons.prems(2,3) this(2)]
    have "trench_loop a st1 = Some (dig_all a rest st1)" .
    with Cons.prems sec Inr show ?thesis
      by (subst trench_loop.simps) simp
  qed
qed

lemma trench_loop_at_port:
  assumes "trench_vessel st = Some tv" "at_port tv" "\<not> scheduled TrenchVessel st"
  shows "trench_loop a st = Some (dig_all a (heap st a) (trench_arrive st))"
proof -
  let ?tv = "tv\<lparr>at_port := False, at_site := True\<rparr>"
  from assms have "trench_vessel (trench_arrive st) = Some ?tv" "at_site ?tv" "\<not> at_port ?tv"
    "heap (trench_arrive st) a = heap st a"
    by (simp_all add: trench_arrive_def)
  from trench_loop_at_site [OF this]
  have "trench_loop a (trench_arrive st) = Some (dig_all a (heap st a) (trench_arrive st))" .
  with assms show ?thesis
    by (subst trench_loop.simps) (simp add: trench_arrive_def)
qed

lemma dig_all_scheduled:
  "scheduled TrenchVessel st \<Longrightarrow> heap st a = secs \<Longrightarrow>
   \<exists>st'. dig_all a secs st = Inl (AgentAlreadyScheduled, st') \<and>
     log st' = log st \<and> install_vessel st' = install_vessel st \<and>
     burial_vessel st' = burial_vessel st \<and> cable_storage st' = cable_storage st \<and>
     to_bury st' = to_bury st \<and> spawned st' = spawned st \<and> heap_shrinks {a} st st'"
proof (induction secs arbitrary: st)
  case Nil
  then show ?case by (simp add: heap_shrinks_same)
next
  case (Cons sec rest)
  obtain len num extra where sec: "sec = (len, num, extra)" by (cases sec)
  let ?st0 = "st\<lparr>heap := (heap st)(a := rest)\<rparr>"
  from Cons.prems(2) have pop: "heap_shrinks {a} st ?st0" by (rule heap_shrinks_pop)
  from Cons.prems have s0: "scheduled TrenchVessel ?st0" by simp
  show ?case
  proof (cases "nat num = 0")
    case True
    have "heap ?st0 a = rest" by simp
    from Cons.IH [OF s0 this] obtain st' where
      st': "dig_all a rest ?st0 = Inl (AgentAlreadyScheduled, st')"
      "log st' = log ?st0" "install_vessel st' = install_vessel ?st0"
      "burial_vessel st' = burial_vessel ?st0" "cable_storage st' = cable_storage ?st0"
      "to_bury st' = to_bury ?st0" "spawned st' = spawned ?st0" "heap_shrinks {a} ?st0 st'"
      by blast
    from pop st'(8) have "heap_shrinks {a} st st'" by (rule heap_shrinks_trans)
    with st' True s0 sec show ?thesis
      by (simp add: spawn_digs_scheduled)
  next
    case False
    with s0 sec pop show ?thesis
      by (simp add: spawn_digs_scheduled)
  qed
qed

lemma trenched_idem:
  "trenched a (st\<lparr>heap := (heap st)(a := rest)\<rparr>) = trenched a st"
  by (simp add: trenched_def)

lemma dig_all_fresh:
  "\<not> scheduled TrenchVessel st \<Longrightarrow> heap st a = secs \<Longrightarrow>
   (trench_digs secs = [] \<longrightarrow> dig_all a secs st = Inr (trench_leave (trenched a st))) \<and>
   (trench_digs secs \<noteq> [] \<longrightarrow>
      (\<exists>st'. dig_all a secs st = Inl (AgentAlreadyScheduled, st') \<and> aborted a st st'))"
proof (induction secs arbitrary: st)
  case Nil
  then have "(heap st)(a := []) = heap st" by auto
  then have "trenched a st = st" by (simp add: trenched_def)
  with Nil show ?case
    by (simp add: trench_digs_def trench_leave_def)
next
  case (Cons sec rest)
  obtain len num extra where sec: "sec = (len, num, extra)" by (cases sec)
  let ?st0 = "st\<lparr>heap := (heap st)(a := rest)\<rparr>"
  let ?st1 = "?st0\<lparr>spawned := spawned ?st0 @ [DigArrayCablesTrench (Num len)]\<rparr>"
  from Cons.prems(2) have pop: "heap_shrinks {a} st ?st0" by (rule heap_shrinks_pop)
  from Cons.prems have f0: "\<not> scheduled TrenchVessel ?st0" by simp
  have h0: "heap ?st0 a = rest" by simp
  consider "nat num = 0" | "nat num = 1" | "nat num \<noteq> 0" "nat num \<noteq> 1" by blast
  then show ?case
  proof cases
    case 1
    then have d: "trench_digs (sec # rest) = trench_digs rest"
      by (simp add: trench_digs_def sec)
    from 1 f0 sec have e: "dig_all a (sec # rest) st = dig_all a rest ?st0"
      by (simp add: spawn_digs_fresh)
    from Cons.IH [OF f0 h0]
    have q: "trench_digs rest = [] \<longrightarrow>
        dig_all a rest ?st0 = Inr (trench_leave (trenched a ?st0))"
      and ab: "trench_digs rest \<noteq> [] \<longrightarrow>
        (\<exists>st'. dig_all a rest ?st0 = Inl (AgentAlreadyScheduled, st') \<and> aborted a ?st0 st')"
      by simp_all
    have "aborted a st st'" if "aborted a ?st0 st'" for st'
      using that pop by (auto simp: aborted_def intro: heap_shrinks_trans)
    with q ab show ?thesis
      unfolding d e trenched_idem by blast
  next
    case 2
    then have d: "trench_digs (sec # rest) \<noteq> []"
      by (simp add: trench_digs_def sec)
    from 2 f0 sec have e: "dig_all a (sec # rest) st = dig_all a rest ?st1"
      by (simp add: spawn_digs_fresh)
    have "scheduled TrenchVessel ?st1" by (rule scheduled_dug)
    moreover have "heap ?st1 a = rest" by simp
    ultimately obtain st' where
      st': "dig_all a rest ?st1 = Inl (AgentAlreadyScheduled, st')"
      "log st' = log ?st1" "install_vessel st' = install_vessel ?st1"
      "burial_vessel st' = burial_vessel ?st1" "cable_storage st' = cable_storage ?st1"
      "to_bury st' = to_bury ?st1" "spawned st' = spawned ?st1" "heap_shrinks {a} ?st1 st'"
      using dig_all_scheduled [of ?st1 a rest] by blast
    from pop have "heap_shrinks {a} st ?st1" by (simp add: heap_shrinks_def)
    then have "heap_shrinks {a} st st'" using st'(8) by (rule heap_shrinks_trans)
    with st' have "aborted a st st'" by (simp add: aborted_def)
    with st'(1) d e show ?thesis by simp
  next
    case 3
    then have d: "trench_digs (sec # rest) \<noteq> []"
      by (simp add: trench_digs_def sec)
    from 3 f0 sec have e: "dig_all a (sec # rest) st = Inl (AgentAlreadyScheduled, ?st1)"
      by (simp add: spawn_digs_fresh)
    from pop have "heap_shrinks {a} st ?st1" by (simp add: heap_shrinks_def)
    then have "aborted a st ?st1" by (simp add: aborted_def)
    with d e show ?thesis by simp
  qed
qed

lemma install_leave_sel [simp]:
  "install_vessel (install_leave st) = (install_vessel st)\<lparr>at_site := False, at_port := True\<rparr>"
  "cable_storage (install_leave st) = cable_storage st"
  "burial_vessel (install_leave st) = burial_vessel st"
  "trench_vessel (install_leave st) = trench_vessel st"
  "heap (install_leave st) = heap st"
  "to_bury (install_leave st) = to_bury st"
  "spawned (install_leave st) = spawned st"
  "log (install_leave st) = log st @
     [\<lparr>agent = InstallVessel, action = Transit,
       install_flags = (install_vessel st)\<lparr>at_site := False\<rparr>,
       burial_flags = burial_vessel st, trench_flags = trench_vessel st\<rparr>]"
  by (simp_all add: install_leave_def)

lemma install_arrive_sel [simp]:
  "install_vessel (install_arrive ops c st) = (install_vessel st)\<lparr>at_port := False, at_site := True\<rparr>"
  "cable_storage (install_arrive ops c st) = load_cable ops (cable_storage st) c"
  "burial_vessel (install_arrive ops c st) = burial_vessel st"
  "trench_vessel (install_arrive ops c st) = trench_vessel st"
  "heap (install_arrive ops c st) = heap st"
  "to_bury (install_arrive ops c st) = to_bury st"
  "spawned (install_arrive ops c st) = spawned st"
  "log (install_arrive ops c st) = log st @
     [\<lparr>agent = InstallVessel, action = LoadCable, install_flags = install_vessel st,
       burial_flags = burial_vessel st, trench_flags = trench_vessel st\<rparr>,
      \<lparr>agent = InstallVessel, action = Transit,
       install_flags = (install_vessel st)\<lparr>at_port := False\<rparr>,
       burial_flags = burial_vessel st, trench_flags = trench_vessel st\<rparr>]"
  by (simp_all add: install_arrive_def)

lemma trench_leave_sel [simp]:
  "install_vessel (trench_leave st) = install_vessel st"
  "cable_storage (trench_leave st) = cable_storage st"
  "burial_vessel (trench_leave st) = burial_vessel st"
  "trench_vessel (trench_leave st) =
     map_option (\<lambda>v. v\<lparr>at_site := False, at_port := True\<rparr>) (trench_vessel st)"
  "heap (trench_leave st) = heap st"
  "to_bury (trench_leave st) = to_bury st"
  "spawned (trench_leave st) = spawned st"
  "log (trench_leave st) = log st @
     [\<lparr>agent = TrenchVessel, action = Transit, install_flags = install_vessel st,
       burial_flags = burial_vessel st,
       trench_flags = map_option (\<lambda>v. v\<lparr>at_site := False\<rparr>) (trench_vessel st)\<rparr>]"
  by (simp_all add: trench_leave_def option.map_comp comp_def)

lemma trench_arrive_sel [simp]:
  "install_vessel (trench_arrive st) = install_vessel st"
  "cable_storage (trench_arrive st) = cable_storage st"
  "burial_vessel (trench_arrive st) = burial_vessel st"
  "trench_vessel (trench_arrive st) =
     map_option (\<lambda>v. v\<lparr>at_port := False, at_site := True\<rparr>) (trench_vessel st)"
  "heap (trench_arrive st) = heap st"
  "to_bury (trench_arrive st) = to_bury st"
  "spawned (trench_arrive st) = spawned st"
  "log (trench_arrive st) = log st @
     [\<lparr>agent = TrenchVessel, action = Transit, install_flags = install_vessel st,
       burial_flags = burial_vessel st,
       trench_flags = map_option (\<lambda>v. v\<lparr>at_port := False\<rparr>) (trench_vessel st)\<rparr>]"
  by (simp_all add: trench_arrive_def option.map_comp comp_def)

lemma trenched_sel [simp]:
  "install_vessel (trenched a st) = install_vessel st"
  "cable_storage (trenched a st) = cable_storage st"
  "burial_vessel (trenched a st) = burial_vessel st"
  "trench_vessel (trenched a st) = trench_vessel st"
  "heap (trenched a st) = (heap st)(a := [])"
  "to_bury (trenched a st) = to_bury st"
  "spawned (trenched a st) = spawned st"
  "log (trenched a st) = log st"
  by (simp_all add: trenched_def)

lemma lay_all_fleet:
  "install_vessel (state_of (lay_all ops burial kwargs c a secs st)) =
     (case lay_all ops burial kwargs c a secs st of
        Inl e \<Rightarrow> install_vessel st
      | Inr st' \<Rightarrow> (install_vessel st)\<lparr>at_site := False, at_port := True\<rparr>) \<and>
   burial_vessel (state_of (lay_all ops burial kwargs c a secs st)) = burial_vessel st \<and>
   trench_vessel (state_of (lay_all ops burial kwargs c a secs st)) = trench_vessel st \<and>
   spawned (state_of (lay_all ops burial kwargs c a secs st)) = spawned st"
proof (induction secs arbitrary: st)
  case Nil
  show ?case by simp
next
  case (Cons sec rest)
  obtain len num extra where sec: "sec = (len, num, extra)" by (cases sec)
  let ?st0 = "st\<lparr>heap := (heap st)(a := rest)\<rparr>"
  let ?r = "install_sections ops burial c len (lay_specs burial kwargs extra) (nat num) ?st0"
  have k: "keeps ?st0 (state_of ?r)" by (rule install_sections_keeps)
  show ?case
  proof (cases ?r)
    case (Inl x)
    with k sec show ?thesis by (cases x) (simp add: keeps_def)
  next
    case (Inr st1)
    with k have "keeps ?st0 st1" by simp
    with Cons.IH [of st1] Inr sec show ?thesis
      by (simp add: keeps_def split: sum.splits)
  qed
qed

lemma install_cables_Cons:
  assumes "at_port (install_vessel st)"
  shows "install_cables ops burial kwargs ((c, a) # cable_data) st =
    (case lay_all ops burial kwargs c a (heap st a)
            (install_arrive ops c (st\<lparr>cable_storage := reset ops (cable_storage st)\<rparr>)) of
       Inl e \<Rightarrow> Some (Inl e)
     | Inr st' \<Rightarrow> install_cables ops burial kwargs cable_data (install_leave st'))"
  using assms
  by (simp add: install_loop_at_port Let_def install_leave_def split: sum.splits)

lemma trench_block_sel [simp]:
  "install_vessel (trench_block ops a st) = install_vessel st"
  "cable_storage (trench_block ops a st) = reset ops (cable_storage st)"
  "burial_vessel (trench_block ops a st) = burial_vessel st"
  "trench_vessel (trench_block ops a st) =
     map_option (\<lambda>v. v\<lparr>at_site := False, at_port := True\<rparr>) (trench_vessel st)"
  "heap (trench_block ops a st) = (heap st)(a := [])"
  "to_bury (trench_block ops a st) = to_bury st"
  "spawned (trench_block ops a st) = spawned st"
  by (simp_all add: trench_block_def option.map_comp comp_def)

lemma scheduled_blocks [simp]:
  "scheduled b (trench_arrive st) = scheduled b st"
  "scheduled b (trench_leave st) = scheduled b st"
  "scheduled b (trenched a st) = scheduled b st"
  "scheduled b (trench_block ops a st) = scheduled b st"
  by (simp_all add: scheduled_def)

lemma trench_cables_quiet:
  assumes "trench_vessel st = Some tv" "at_port tv" "\<not> scheduled TrenchVessel st"
    and "trench_digs (heap st a) = []"
  shows "trench_cables ops ((c, a) # cable_data) st =
    trench_cables ops cable_data (trench_block ops a st)"
proof -
  let ?st0 = "st\<lparr>cable_storage := reset ops (cable_storage st)\<rparr>"
  from assms have "trench_vessel ?st0 = Some tv" "\<not> scheduled TrenchVessel ?st0" by simp_all
  from trench_loop_at_port [OF this(1) assms(2) this(2), of a]
  have l: "trench_loop a ?st0 = Some (dig_all a (heap st a) (trench_arrive ?st0))" by simp
  from assms have "\<not> scheduled TrenchVessel (trench_arrive ?st0)"
    "heap (trench_arrive ?st0) a = heap st a" by simp_all
  from dig_all_fresh [OF this] assms(4)
  have "dig_all a (heap st a) (trench_arrive ?st0) =
      Inr (trench_leave (trenched a (trench_arrive ?st0)))" by simp
  with l assms(3) show ?thesis
    by (simp add: trench_block_def trench_leave_def)
qed

lemma trench_cables_abort:
  assumes "trench_vessel st = Some tv" "at_port tv" "\<not> scheduled TrenchVessel st"
    and "trench_digs (heap st a) \<noteq> []"
  shows "\<exists>st'. trench_cables ops ((c, a) # cable_data) st =
                 Some (Inl (AgentAlreadyScheduled, st')) \<and>
               aborted a (trench_arrive (st\<lparr>cable_storage := reset ops (cable_storage st)\<rparr>)) st'"
proof -
  let ?st0 = "st\<lparr>cable_storage := reset ops (cable_storage st)\<rparr>"
  from assms have "trench_vessel ?st0 = Some tv" "\<not> scheduled TrenchVessel ?st0" by simp_all
  from trench_loop_at_port [OF this(1) assms(2) this(2), of a]
  have l: "trench_loop a ?st0 = Some (dig_all a (heap st a) (trench_arrive ?st0))" by simp
  from assms have "\<not> scheduled TrenchVessel (trench_arrive ?st0)"
    "heap (trench_arrive ?st0) a = heap st a" by simp_all
  from dig_all_fresh [OF this] assms(4)
  obtain st' where "dig_all a (heap st a) (trench_arrive ?st0) = Inl (AgentAlreadyScheduled, st')"
    "aborted a (trench_arrive ?st0) st'" by blast
  with l show ?thesis by simp
qed

declare install_cables.simps(2) [simp del] trench_cables.simps(2) [simp del]

text \<open>
  The trenching part from a state with the trench vessel at port and not scheduled:
  it returns after a \<open>trench_block\<close> for every cable, having created no process, or it is
  left by \<open>AgentAlreadyScheduled\<close> in the loop of the first cable whose sections ask for
  a digging process. \<open>P\<close> is any property that the blocks preserve.
\<close>

lemma trench_cables_run:
  assumes "trench_vessel st = Some tv" "at_port tv" "\<not> scheduled TrenchVessel st"
    and "P st"
    and "\<And>c a s v. (c, a) \<in> set cable_data \<Longrightarrow> P s \<Longrightarrow> trench_vessel s = Some v \<Longrightarrow>
           at_port v \<Longrightarrow> \<not> scheduled TrenchVessel s \<Longrightarrow> P (trench_block ops a s)"
  shows "\<exists>r. trench_cables ops cable_data st = Some r \<and>
     (\<forall>st'. r = Inr st' \<longrightarrow>
        P st' \<and> (\<exists>v. trench_vessel st' = Some v \<and> at_port v) \<and>
        spawned st' = spawned st) \<and>
     (\<forall>e st'. r = Inl (e, st') \<longrightarrow>
        e = AgentAlreadyScheduled \<and>
        (\<exists>c a s. (c, a) \<in> set cable_data \<and> P s \<and> spawned s = spawned st \<and>
           aborted a (trench_arrive (s\<lparr>cable_storage := reset ops (cable_storage s)\<rparr>)) st'))"
  using assms
proof (induction cable_data arbitrary: st tv)
  case Nil
  then show ?case by simp
next
  case (Cons ca cable_data)
  obtain c a where ca: "ca = (c, a)" by (cases ca)
  show ?case
  proof (cases "trench_digs (heap st a) = []")
    case True
    let ?st1 = "trench_block ops a st"
    let ?tv = "tv\<lparr>at_site := False, at_port := True\<rparr>"
    from Cons.prems(1-3) True
    have eq: "trench_cables ops (ca # cable_data) st = trench_cables ops cable_data ?st1"
      unfolding ca by (rule trench_cables_quiet)
    from Cons.prems have 1: "trench_vessel ?st1 = Some ?tv" "at_port ?tv"
      "\<not> scheduled TrenchVessel ?st1"
      by simp_all
    from Cons.prems(5) [of c a st tv] Cons.prems(1-4) ca have 2: "P ?st1" by simp
    have 3: "P (trench_block ops a' s)"
      if "(c', a') \<in> set cable_data" "P s" "trench_vessel s = Some v" "at_port v"
        "\<not> scheduled TrenchVessel s" for c' a' s v
      using Cons.prems(5) [of c' a' s v] that by simp
    have "\<exists>r. trench_cables ops cable_data ?st1 = Some r \<and>
       (\<forall>st'. r = Inr st' \<longrightarrow>
          P st' \<and> (\<exists>v. trench_vessel st' = Some v \<and> at_port v) \<and>
          spawned st' = spawned ?st1) \<and>
       (\<forall>e st'. r = Inl (e, st') \<longrightarrow>
          e = AgentAlreadyScheduled \<and>
          (\<exists>c a s. (c, a) \<in> set cable_data \<and> P s \<and> spawned s = spawned ?st1 \<and>
             aborted a (trench_arrive (s\<lparr>cable_storage := reset ops (cable_storage s)\<rparr>)) st'))"
      by (rule Cons.IH [OF 1 2]) (rule 3)
    then show ?thesis
      unfolding eq by (simp, blast)
  next
    case False
    from trench_cables_abort [OF Cons.prems(1-3) False, of ops c cable_data]
    obtain st' where "trench_cables ops (ca # cable_data) st =
        Some (Inl (AgentAlreadyScheduled, st'))"
      "aborted a (trench_arrive (st\<lparr>cable_storage := reset ops (cable_storage st)\<rparr>)) st'"
      unfolding ca by blast
    with Cons.prems(4) ca show ?thesis by auto
  qed
qed

lemma lay_all_at_port:
  "lay_all ops burial kwargs c a secs st = Inr st' \<Longrightarrow> at_port (install_vessel st')"
  using lay_all_fleet [of ops burial kwargs c a secs st] by simp

lemma install_array_cables_cases:
  assumes run: "install_array_cables ops distance cable_data kwargs st = Some r"
    and tr: "\<forall>tv. trench_vessel st = Some tv \<longrightarrow> at_port tv"
    and ns: "\<not> scheduled TrenchVessel st"
  obtains (aborts) st' where
    "trench_vessel st \<noteq> None"
    "trench_cables ops cable_data st = Some (Inl (AgentAlreadyScheduled, st'))"
    "r = Inl (AgentAlreadyScheduled, st')"
  | (lays) st1 r2 where
    "if trench_vessel st = None then st1 = st
     else trench_cables ops cable_data st = Some (Inr st1)"
    "install_cables ops (burial_vessel st1 \<noteq> None) kwargs cable_data (st1\<lparr>to_bury := []\<rparr>) = Some r2"
    "r = (case r2 of
            Inl e \<Rightarrow> Inl e
          | Inr st2 \<Rightarrow>
              Inr (if burial_vessel st2 = None then st2
                   else st2\<lparr>spawned := spawned st2 @ [BuryArrayCables (to_bury st2)]\<rparr>))"
proof (cases "trench_vessel st")
  case None
  with run obtain r2 where
    r2: "install_cables ops (burial_vessel st \<noteq> None) kwargs cable_data (st\<lparr>to_bury := []\<rparr>) = Some r2"
    by (auto simp: install_array_cables_def split: option.splits)
  with run None have "r = (case r2 of
            Inl e \<Rightarrow> Inl e
          | Inr st2 \<Rightarrow>
              Inr (if burial_vessel st2 = None then st2
                   else st2\<lparr>spawned := spawned st2 @ [BuryArrayCables (to_bury st2)]\<rparr>))"
    by (auto simp: install_array_cables_def split: sum.splits)
  with None r2 lays [of st r2] show ?thesis by simp
next
  case (Some tv)
  with tr have "at_port tv" by simp
  from trench_cables_run [where P = "\<lambda>s. True", OF Some this ns]
  obtain r1 where r1: "trench_cables ops cable_data st = Some r1"
    and e: "\<forall>e st'. r1 = Inl (e, st') \<longrightarrow> e = AgentAlreadyScheduled"
    by blast
  show ?thesis
  proof (cases r1)
    case (Inl x)
    obtain e st' where x: "x = (e, st')" by (cases x)
    with e Inl have e': "e = AgentAlreadyScheduled" by simp
    from run Some r1 Inl x have "r = Inl (e, st')"
      by (simp add: install_array_cables_def)
    with e' have 3: "r = Inl (AgentAlreadyScheduled, st')" by simp
    from Some have 1: "trench_vessel st \<noteq> None" by simp
    from r1 Inl x e' have 2: "trench_cables ops cable_data st =
        Some (Inl (AgentAlreadyScheduled, st'))" by simp
    from 1 2 3 show ?thesis by (rule aborts)
  next
    case (Inr st1)
    with run Some r1 obtain r2 where
      r2: "install_cables ops (burial_vessel st1 \<noteq> None) kwargs cable_data (st1\<lparr>to_bury := []\<rparr>) = Some r2"
      by (auto simp: install_array_cables_def split: option.splits)
    with run Some r1 Inr have "r = (case r2 of
            Inl e \<Rightarrow> Inl e
          | Inr st2 \<Rightarrow>
              Inr (if burial_vessel st2 = None then st2
                   else st2\<lparr>spawned := spawned st2 @ [BuryArrayCables (to_bury st2)]\<rparr>))"
      by (auto simp: install_array_cables_def split: sum.splits)
    with Some r1 Inr r2 lays [of st1 r2] show ?thesis by simp
  qed
qed

text \<open>
  What the trenching part leaves of the other vessels when it returns.
\<close>

lemma trench_cables_fleet:
  assumes "trench_vessel st = Some tv" "at_port tv" "\<not> scheduled TrenchVessel st"
    and "trench_cables ops cable_data st = Some (Inr st')"
  shows "install_vessel st' = install_vessel st \<and> burial_vessel st' = burial_vessel st \<and>
         to_bury st' = to_bury st \<and> spawned st' = spawned st"
  using trench_cables_run
    [where P = "\<lambda>s. install_vessel s = install_vessel st \<and> burial_vessel s = burial_vessel st \<and>
                     to_bury s = to_bury st" and ops = ops and cable_data = cable_data,
     OF assms(1-3)] assms(4)
  by simp

lemma install_cables_total:
  "at_port (install_vessel st) \<Longrightarrow> \<exists>r. install_cables ops burial kwargs cable_data st = Some r"
proof (induction cable_data arbitrary: st)
  case Nil
  show ?case by simp
next
  case (Cons ca cable_data)
  obtain c a where ca: "ca = (c, a)" by (cases ca)
  let ?r = "lay_all ops burial kwargs c a (heap st a)
     (install_arrive ops c (st\<lparr>cable_storage := reset ops (cable_storage st)\<rparr>))"
  show ?case
  proof (cases ?r)
    case (Inl x)
    with Cons.prems ca show ?thesis by (simp add: install_cables_Cons)
  next
    case (Inr st2)
    have "at_port (install_vessel (install_leave st2))" by simp
    from Cons.IH [OF this] Cons.prems Inr ca show ?thesis
      by (simp add: install_cables_Cons)
  qed
qed

lemma install_array_cables_total:
  assumes "at_port (install_vessel st)"
    and "\<forall>tv. trench_vessel st = Some tv \<longrightarrow> at_port tv"
    and "\<not> scheduled TrenchVessel st"
  shows "\<exists>r. install_array_cables ops distance cable_data kwargs st = Some r"
proof (cases "trench_vessel st")
  case None
  from assms(1) have "at_port (install_vessel (st\<lparr>to_bury := []\<rparr>))" by simp
  from install_cables_total [OF this, of ops "burial_vessel st \<noteq> None" kwargs cable_data]
  obtain r where "install_cables ops (burial_vessel st \<noteq> None) kwargs cable_data
      (st\<lparr>to_bury := []\<rparr>) = Some r" by blast
  with None show ?thesis
    by (cases r) (simp_all add: install_array_cables_def)
next
  case (Some tv)
  with assms(2) have tv: "at_port tv" by simp
  from trench_cables_run [where P = "\<lambda>s. True", OF Some tv assms(3)]
  obtain r1 where r1: "trench_cables ops cable_data st = Some r1" by blast
  show ?thesis
  proof (cases r1)
    case (Inl x)
    with Some r1 show ?thesis by (simp add: install_array_cables_def)
  next
    case (Inr st1)
    with r1 have "install_vessel st1 = install_vessel st"
      using trench_cables_fleet [OF Some tv assms(3)] by simp
    with assms(1) have "at_port (install_vessel (st1\<lparr>to_bury := []\<rparr>))" by simp
    from install_cables_total [OF this, of ops "burial_vessel st1 \<noteq> None" kwargs cable_data]
    obtain r where "install_cables ops (burial_vessel st1 \<noteq> None) kwargs cable_data
        (st1\<lparr>to_bury := []\<rparr>) = Some r" by blast
    with Some r1 Inr show ?thesis
      by (cases r) (simp_all add: install_array_cables_def)
  qed
qed

lemma setup_simulation_eq:
  "setup_simulation ops s0 cfg h n kwargs =
     install_array_cables ops (site_distance cfg) (fst (copy_cables (cables cfg) h n)) kwargs
       (initial_sim s0 cfg (snd (copy_cables (cables cfg) h n)))"
  by (simp add: setup_simulation_def initial_sim_def split: prod.splits)

lemma initial_sim_sel [simp]:
  "install_vessel (initial_sim s0 cfg h) = initial_vessel"
  "cable_storage (initial_sim s0 cfg h) = s0"
  "burial_vessel (initial_sim s0 cfg h) =
     (if array_cable_bury_vessel cfg then Some initial_vessel else None)"
  "trench_vessel (initial_sim s0 cfg h) =
     (if array_cable_trench_vessel cfg then Some initial_vessel else None)"
  "heap (initial_sim s0 cfg h) = h"
  "to_bury (initial_sim s0 cfg h) = []"
  "log (initial_sim s0 cfg h) = []"
  "spawned (initial_sim s0 cfg h) = []"
  by (simp_all add: initial_sim_def)

lemma initial_vessel_sel [simp]:
  "at_port initial_vessel" "\<not> at_site initial_vessel"
  by (simp_all add: initial_vessel_def)

lemma initial_sim_fresh [simp]: "\<not> scheduled a (initial_sim s0 cfg h)"
  by (simp add: scheduled_def initial_sim_def)

lemma setup_simulation_total: "\<exists>r. setup_simulation ops s0 cfg h n kwargs = Some r"
  unfolding setup_simulation_eq
  by (rule install_array_cables_total) simp_all

lemma install_cables_fleet:
  "install_cables ops burial kwargs cable_data st = Some r \<Longrightarrow>
   at_port (install_vessel st) \<Longrightarrow>
   burial_vessel (state_of r) = burial_vessel st \<and>
   trench_vessel (state_of r) = trench_vessel st \<and>
   spawned (state_of r) = spawned st"
proof (induction cable_data arbitrary: st)
  case Nil
  then show ?case by auto
next
  case (Cons ca cable_data)
  obtain c a where ca: "ca = (c, a)" by (cases ca)
  let ?st1 = "install_arrive ops c (st\<lparr>cable_storage := reset ops (cable_storage st)\<rparr>)"
  let ?r = "lay_all ops burial kwargs c a (heap st a) ?st1"
  note fl = lay_all_fleet [of ops burial kwargs c a "heap st a" ?st1]
  show ?case
  proof (cases ?r)
    case (Inl x)
    with Cons.prems fl ca show ?thesis
      by (auto simp: install_cables_Cons)
  next
    case (Inr st2)
    with Cons.prems ca have "install_cables ops burial kwargs cable_data (install_leave st2) = Some r"
      by (simp add: install_cables_Cons)
    moreover have "at_port (install_vessel (install_leave st2))" by simp
    ultimately have "burial_vessel (state_of r) = burial_vessel (install_leave st2) \<and>
      trench_vessel (state_of r) = trench_vessel (install_leave st2) \<and>
      spawned (state_of r) = spawned (install_leave st2)" by (rule Cons.IH)
    with fl Inr show ?thesis by simp
  qed
qed

lemma aborted_run_call:
  assumes "aborted a st st'" "spawned st = []" "call \<in> set (spawned st')"
  shows "run_call call st' = Inl (TypeError, st')"
  using assms by (auto simp: aborted_def)

lemma install_array_cables_number_args:
  assumes run: "install_array_cables ops distance cable_data kwargs st = Some r"
    and port: "at_port (install_vessel st)"
    and tr: "\<forall>tv. trench_vessel st = Some tv \<longrightarrow> at_port tv"
    and sp: "spawned st = []"
  shows "list_all number_arg (spawned (state_of r))"
proof -
  from sp have ns: "\<not> scheduled TrenchVessel st" by (simp add: scheduled_def)
  from run tr ns show ?thesis
  proof (cases rule: install_array_cables_cases)
    case (aborts st')
    then obtain tv where tv: "trench_vessel st = Some tv" by blast
    with tr have p: "at_port tv" by simp
    from trench_cables_run
      [where P = "\<lambda>s. True" and ops = ops and cable_data = cable_data, OF tv p ns]
      aborts(2) sp
    obtain a s where "spawned s = []"
      "aborted a (trench_arrive (s\<lparr>cable_storage := reset ops (cable_storage s)\<rparr>)) st'"
      by auto
    then have "list_all number_arg (spawned st')"
      by (auto simp: aborted_def)
    with aborts(3) show ?thesis by simp
  next
    case (lays st1 r2)
    have "spawned st1 = [] \<and> install_vessel st1 = install_vessel st"
    proof (cases "trench_vessel st")
      case None
      with lays(1) sp show ?thesis by simp
    next
      case (Some tv)
      with tr have tv: "at_port tv" by simp
      from lays(1) Some have "trench_cables ops cable_data st = Some (Inr st1)" by simp
      from trench_cables_fleet [OF Some tv ns this] sp show ?thesis by simp
    qed
    with port have p: "at_port (install_vessel (st1\<lparr>to_bury := []\<rparr>))"
      and s: "spawned (st1\<lparr>to_bury := []\<rparr>) = []"
      by simp_all
    from install_cables_fleet [OF lays(2) p] s
    have "spawned (state_of r2) = []" by simp
    with lays(3) show ?thesis
      by (cases r2) auto
  qed
qed

text \<open>Unfolding the process on a concrete input.\<close>

lemmas eval_simps =
  setup_simulation_eq install_array_cables_def install_cables.simps trench_cables.simps
  install_loop.simps trench_loop.simps install_section_def pool_ops_def lay_specs_def Let_def
  scheduled_def

subsection \<open>Exceptions that leave the process\<close>













subsection \<open>Location flags\<close>

lemma trace_ok_snoc:
  "trace_ok (evs @ [ev]) =
     (trace_ok evs \<and> point_ok ev \<and> (evs = [] \<or> change_ok (last evs) ev))"
  by (auto simp: trace_ok_def successively_append_iff)

lemma flags_inv_cong:
  "log st' = log st \<Longrightarrow> install_vessel st' = install_vessel st \<Longrightarrow>
   burial_vessel st' = burial_vessel st \<Longrightarrow> trench_vessel st' = trench_vessel st \<Longrightarrow>
   flags_inv st' = flags_inv st"
  by (simp add: flags_inv_def vessels_def)

lemma flags_inv_upd [simp]:
  "flags_inv (st\<lparr>heap := h\<rparr>) = flags_inv st"
  "flags_inv (st\<lparr>cable_storage := s\<rparr>) = flags_inv st"
  "flags_inv (st\<lparr>to_bury := tb\<rparr>) = flags_inv st"
  "flags_inv (st\<lparr>spawned := sp\<rparr>) = flags_inv st"
  "flags_inv (trenched a st) = flags_inv st"
  by (rule flags_inv_cong; simp)+

lemma flags_inv_yield: "flags_inv st \<Longrightarrow> flags_inv (yield_step a x st)"
  by (auto simp: flags_inv_def trace_ok_snoc point_ok_def change_ok_def vessels_def
      split: option.splits)

lemma flags_inv_load: "flags_inv st \<Longrightarrow> flags_inv (load_cable_on_vessel ops c st)"
  by (simp add: load_cable_on_vessel_def flags_inv_yield)

lemma flags_inv_install_leave: "flags_inv st \<Longrightarrow> flags_inv (install_leave st)"
  by (auto simp: flags_inv_def trace_ok_snoc point_ok_def change_ok_def vessels_def
      in_transit_def located_def split: option.splits)

lemma flags_inv_install_arrive: "flags_inv st \<Longrightarrow> flags_inv (install_arrive ops c st)"
  by (auto simp: flags_inv_def trace_ok_snoc point_ok_def change_ok_def vessels_def
      in_transit_def located_def trace_ok_snoc [of "evs @ [e]" for evs e, simplified]
      split: option.splits)

lemma flags_inv_trench_leave: "flags_inv st \<Longrightarrow> flags_inv (trench_leave st)"
  by (auto simp: flags_inv_def trace_ok_snoc point_ok_def change_ok_def vessels_def
      in_transit_def located_def split: option.splits)

lemma flags_inv_trench_arrive: "flags_inv st \<Longrightarrow> flags_inv (trench_arrive st)"
  by (auto simp: flags_inv_def trace_ok_snoc point_ok_def change_ok_def vessels_def
      in_transit_def located_def split: option.splits)


lemma flags_inv_lay_procedure:
  "flags_inv st \<Longrightarrow> flags_inv (lay_procedure burial specs section st)"
  by (simp add: lay_procedure_def Let_def flags_inv_yield)

lemma flags_inv_install_section:
  assumes "flags_inv st"
  shows "flags_inv (state_of (install_section ops burial c len specs st))"
proof -
  let ?st3 = "yield_step InstallVessel Transit
                (load_cable_on_vessel ops c (yield_step InstallVessel Transit st))"
  from assms have "flags_inv ?st3"
    by (simp add: flags_inv_yield flags_inv_load)
  with assms show ?thesis
    by (auto simp: install_section_def Let_def flags_inv_lay_procedure
        split: sum.splits error.splits prod.splits)
qed

lemma flags_inv_install_sections:
  "flags_inv st \<Longrightarrow> flags_inv (state_of (install_sections ops burial c len specs k st))"
proof (induction k arbitrary: st)
  case 0
  then show ?case by simp
next
  case (Suc k)
  from flags_inv_install_section [OF Suc.prems, of ops burial c len specs]
  show ?case
    by (cases "install_section ops burial c len specs st") (auto simp: Suc.IH)
qed

lemma flags_inv_lay_all:
  "flags_inv st \<Longrightarrow> flags_inv (state_of (lay_all ops burial kwargs c a secs st))"
proof (induction secs arbitrary: st)
  case Nil
  then show ?case by (simp add: flags_inv_install_leave)
next
  case (Cons sec rest)
  obtain len num extra where sec: "sec = (len, num, extra)" by (cases sec)
  let ?st0 = "st\<lparr>heap := (heap st)(a := rest)\<rparr>"
  let ?r = "install_sections ops burial c len (lay_specs burial kwargs extra) (nat num) ?st0"
  from Cons.prems have "flags_inv (state_of ?r)"
    by (simp add: flags_inv_install_sections)
  then show ?case
    unfolding sec by (cases ?r) (auto simp: Cons.IH)
qed

lemma flags_inv_install_cables:
  "install_cables ops burial kwargs cable_data st = Some r \<Longrightarrow>
   at_port (install_vessel st) \<Longrightarrow> flags_inv st \<Longrightarrow> flags_inv (state_of r)"
proof (induction cable_data arbitrary: st)
  case Nil
  then show ?case by auto
next
  case (Cons ca cable_data)
  obtain c a where ca: "ca = (c, a)" by (cases ca)
  let ?st1 = "install_arrive ops c (st\<lparr>cable_storage := reset ops (cable_storage st)\<rparr>)"
  let ?r = "lay_all ops burial kwargs c a (heap st a) ?st1"
  from Cons.prems have inv: "flags_inv (state_of ?r)"
    by (simp add: flags_inv_lay_all flags_inv_install_arrive)
  show ?case
  proof (cases ?r)
    case (Inl x)
    with Cons.prems inv ca show ?thesis
      by (auto simp: install_cables_Cons)
  next
    case (Inr st2)
    with Cons.prems ca have "install_cables ops burial kwargs cable_data (install_leave st2) = Some r"
      by (simp add: install_cables_Cons)
    moreover have "at_port (install_vessel (install_leave st2))" by simp
    moreover from inv Inr have "flags_inv (install_leave st2)"
      by (simp add: flags_inv_install_leave)
    ultimately show ?thesis by (rule Cons.IH)
  qed
qed

lemma flags_inv_trench_block: "flags_inv st \<Longrightarrow> flags_inv (trench_block ops a st)"
  by (simp add: trench_block_def flags_inv_trench_leave flags_inv_trench_arrive)

lemma flags_inv_initial: "flags_inv (initial_sim s0 cfg h)"
  by (simp add: flags_inv_def trace_ok_def vessels_def located_def)

lemma flags_inv_bury_array_cables:
  "flags_inv st \<Longrightarrow> flags_inv (bury_array_cables sections st)"
  by (induction sections arbitrary: st) (simp_all add: flags_inv_yield)

lemma flags_inv_run_call:
  "flags_inv st \<Longrightarrow> number_arg call \<Longrightarrow> flags_inv (state_of (run_call call st))"
  by (cases call rule: number_arg.cases) (simp_all add: flags_inv_bury_array_cables)


lemma trace_ok_install_array_cables:
  assumes run: "install_array_cables ops distance cable_data kwargs st = Some r"
    and port: "at_port (install_vessel st)"
    and tr: "\<forall>tv. trench_vessel st = Some tv \<longrightarrow> at_port tv"
    and inv: "flags_inv st"
    and sp: "spawned st = []"
  shows "trace_ok (log (state_of r)) \<and>
         list_all (\<lambda>call. trace_ok (log (state_of (run_call call (state_of r)))))
           (spawned (state_of r))"
proof -
  from sp have ns: "\<not> scheduled TrenchVessel st" by (simp add: scheduled_def)
  from run tr ns show ?thesis
  proof (cases rule: install_array_cables_cases)
    case (aborts st')
    then obtain tv where tv: "trench_vessel st = Some tv" by blast
    with tr have p: "at_port tv" by simp
    from trench_cables_run
      [where P = flags_inv and ops = ops and cable_data = cable_data, OF tv p ns inv]
      aborts(2) sp
    obtain a s where s: "flags_inv s" "spawned s = []"
      and ab: "aborted a (trench_arrive (s\<lparr>cable_storage := reset ops (cable_storage s)\<rparr>)) st'"
      by (auto simp: flags_inv_trench_block)
    let ?s1 = "trench_arrive (s\<lparr>cable_storage := reset ops (cable_storage s)\<rparr>)"
    from s(1) have "flags_inv ?s1" by (simp add: flags_inv_trench_arrive)
    then have "trace_ok (log ?s1)" by (simp add: flags_inv_def)
    with ab have t: "trace_ok (log st')" by (simp add: aborted_def)
    from s(2) have "spawned ?s1 = []" by simp
    with ab have "run_call call st' = Inl (TypeError, st')" if "call \<in> set (spawned st')" for call
      using that by (rule aborted_run_call)
    with t aborts(3) show ?thesis by (simp add: list_all_iff)
  next
    case (lays st1 r2)
    have "flags_inv st1 \<and> install_vessel st1 = install_vessel st"
    proof (cases "trench_vessel st")
      case None
      with lays(1) inv show ?thesis by simp
    next
      case (Some tv)
      with tr have p: "at_port tv" by simp
      from lays(1) Some have run1: "trench_cables ops cable_data st = Some (Inr st1)" by simp
      from trench_cables_run
        [where P = flags_inv and ops = ops and cable_data = cable_data, OF Some p ns inv] run1
      have "flags_inv st1" by (auto simp: flags_inv_trench_block)
      with trench_cables_fleet [OF Some p ns run1] show ?thesis by simp
    qed
    with port have "at_port (install_vessel (st1\<lparr>to_bury := []\<rparr>))" "flags_inv (st1\<lparr>to_bury := []\<rparr>)"
      by simp_all
    from flags_inv_install_cables [OF lays(2) this] have "flags_inv (state_of r2)" .
    with lays(3) have fi: "flags_inv (state_of r)"
      by (cases r2) auto
    have num: "list_all number_arg (spawned (state_of r))"
      by (rule install_array_cables_number_args [OF run port tr sp])
    from fi have "trace_ok (log (state_of r))" by (simp add: flags_inv_def)
    moreover have "list_all (\<lambda>call. trace_ok (log (state_of (run_call call (state_of r)))))
           (spawned (state_of r))"
      unfolding list_all_iff
    proof
      fix call
      assume "call \<in> set (spawned (state_of r))"
      with num have "number_arg call" by (simp add: list_all_iff)
      with fi have "flags_inv (state_of (run_call call (state_of r)))"
        by (rule flags_inv_run_call)
      then show "trace_ok (log (state_of (run_call call (state_of r))))"
        by (simp add: flags_inv_def)
    qed
    ultimately show ?thesis by simp
  qed
qed

text \<open>
  Claim C3. The phase creates every vessel at port (lines 112--114, 131--132, 149--150).
  The process then always returns or raises, and in its trace, and in the trace of every
  process it created, every configured vessel has exactly one of \<open>at_port\<close> and
  \<open>at_site\<close> set at every suspension point that is not a transit step of that vessel
  (\<open>point_ok\<close>), and the flags of a vessel differ between two consecutive suspension
  points only when one of the two is a transit step of that vessel (\<open>change_ok\<close>). On
  the reload round trip the flags are not touched: the vessel stays \<open>at_site\<close>.
\<close>

theorem flags_change_only_around_transit:
  "\<exists>r. setup_simulation ops s0 cfg h n kwargs = Some r \<and>
       trace_ok (log (state_of r)) \<and>
       list_all (\<lambda>call. trace_ok (log (state_of (run_call call (state_of r)))))
         (spawned (state_of r))"
proof -
  obtain r where r: "setup_simulation ops s0 cfg h n kwargs = Some r"
    using setup_simulation_total [of ops s0 cfg h n kwargs] by blast
  let ?cd = "fst (copy_cables (cables cfg) h n)"
  let ?st = "initial_sim s0 cfg (snd (copy_cables (cables cfg) h n))"
  from r have run: "install_array_cables ops (site_distance cfg) ?cd kwargs ?st = Some r"
    by (simp add: setup_simulation_eq)
  have "trace_ok (log (state_of r)) \<and>
      list_all (\<lambda>call. trace_ok (log (state_of (run_call call (state_of r)))))
        (spawned (state_of r))"
    by (rule trace_ok_install_array_cables [OF run]) (simp_all add: flags_inv_initial)
  with r show ?thesis by blast
qed

theorem flags_change_only_around_transit_witness:
  "\<exists>st'. setup_simulation pool_ops \<lparr>capacity = 10, level = 0\<rparr>
           (one_cable\<lparr>array_cable_bury_vessel := True\<rparr>) (\<lambda>_. [(4, 1, [])]) 1 [] =
             Some (Inr st') \<and>
         spawned st' = [BuryArrayCables [4]] \<and> length (log st') = 13 \<and>
         trace_ok (log st') \<and> trace_ok (log (bury_array_cables [4] st'))"
proof -
  let ?run = "setup_simulation pool_ops \<lparr>capacity = 10, level = 0\<rparr>
           (one_cable\<lparr>array_cable_bury_vessel := True\<rparr>) (\<lambda>_. [(4, 1, [])]) 1 []"
  have "\<exists>st'. ?run = Some (Inr st') \<and> spawned st' = [BuryArrayCables [4]] \<and>
          length (log st') = 13"
    by (simp add: eval_simps one_cable_def)
  then obtain st' where st': "?run = Some (Inr st')" "spawned st' = [BuryArrayCables [4]]"
    "length (log st') = 13" by blast
  from flags_change_only_around_transit
    [of pool_ops "\<lparr>capacity = 10, level = 0\<rparr>"
        "one_cable\<lparr>array_cable_bury_vessel := True\<rparr>" "\<lambda>_. [(4, 1, [])]" 1 "[]"] st'
  have "trace_ok (log st')" "trace_ok (log (bury_array_cables [4] st'))"
    by auto
  with st' show ?thesis by blast
qed

subsection \<open>Laying with a burial vessel\<close>

lemma sections_Nil [simp]:
  "lay_sections [] = []" "lay_bury_sections [] = []" "bury_sections [] = []"
  by (simp_all add: lay_sections_def lay_bury_sections_def bury_sections_def)

lemma sections_append [simp]:
  "lay_sections (evs @ evs') = lay_sections evs @ lay_sections evs'"
  "lay_bury_sections (evs @ evs') = lay_bury_sections evs @ lay_bury_sections evs'"
  "bury_sections (evs @ evs') = bury_sections evs @ bury_sections evs'"
  by (simp_all add: lay_sections_def lay_bury_sections_def bury_sections_def)

lemma sections_Cons [simp]:
  "lay_sections (ev # evs) = laid (action ev) @ lay_sections evs"
  "lay_bury_sections (ev # evs) = laid_buried (action ev) @ lay_bury_sections evs"
  "bury_sections (ev # evs) = buried (action ev) @ bury_sections evs"
  by (simp_all add: lay_sections_def lay_bury_sections_def bury_sections_def)

lemma sections_lay_procedure [simp]:
  "lay_sections (log (lay_procedure burial specs section st)) =
     lay_sections (log st) @ (if burial then [section] else [])"
  "lay_bury_sections (log (lay_procedure burial specs section st)) =
     lay_bury_sections (log st) @ (if burial then [] else [section])"
  "bury_sections (log (lay_procedure burial specs section st)) = bury_sections (log st)"
  by (simp_all add: lay_procedure_def Let_def)

lemma bury_inv_yield:
  "bury_inv st \<Longrightarrow> laid x = [] \<Longrightarrow> laid_buried x = [] \<Longrightarrow> buried x = [] \<Longrightarrow>
   bury_inv (yield_step a x st)"
  by (simp add: bury_inv_def)

lemma bury_inv_upd [simp]:
  "bury_inv (st\<lparr>heap := h\<rparr>) = bury_inv st"
  "bury_inv (st\<lparr>cable_storage := s\<rparr>) = bury_inv st"
  "bury_inv (st\<lparr>spawned := sp\<rparr>) = bury_inv st"
  "bury_inv (set_install f st) = bury_inv st"
  "bury_inv (set_trench f st) = bury_inv st"
  "bury_inv (trenched a st) = bury_inv st"
  by (simp_all add: bury_inv_def)

lemma bury_inv_blocks:
  "bury_inv st \<Longrightarrow> bury_inv (load_cable_on_vessel ops c st)"
  "bury_inv st \<Longrightarrow> bury_inv (install_arrive ops c st)"
  "bury_inv st \<Longrightarrow> bury_inv (install_leave st)"
  "bury_inv st \<Longrightarrow> bury_inv (trench_arrive st)"
  "bury_inv st \<Longrightarrow> bury_inv (trench_leave st)"
  by (simp_all add: bury_inv_def)

lemma bury_inv_lay_procedure:
  "bury_inv st \<Longrightarrow> bury_inv (lay_procedure True specs section st)"
  by (simp add: bury_inv_def)

lemma bury_inv_install_section:
  assumes "bury_inv st"
  shows "bury_inv (state_of (install_section ops True c len specs st))"
proof -
  let ?st3 = "yield_step InstallVessel Transit
                (load_cable_on_vessel ops c (yield_step InstallVessel Transit st))"
  from assms have "bury_inv ?st3"
    by (simp add: bury_inv_yield bury_inv_blocks)
  with assms show ?thesis
    by (auto simp: install_section_def Let_def bury_inv_lay_procedure
        split: sum.splits error.splits prod.splits)
qed

lemma bury_inv_install_sections:
  "bury_inv st \<Longrightarrow> bury_inv (state_of (install_sections ops True c len specs k st))"
proof (induction k arbitrary: st)
  case 0
  then show ?case by simp
next
  case (Suc k)
  from bury_inv_install_section [OF Suc.prems, of ops c len specs]
  show ?case
    by (cases "install_section ops True c len specs st") (auto simp: Suc.IH)
qed

lemma bury_inv_lay_all:
  "bury_inv st \<Longrightarrow> bury_inv (state_of (lay_all ops True kwargs c a secs st))"
proof (induction secs arbitrary: st)
  case Nil
  then show ?case by (simp add: bury_inv_blocks)
next
  case (Cons sec rest)
  obtain len num extra where sec: "sec = (len, num, extra)" by (cases sec)
  let ?st0 = "st\<lparr>heap := (heap st)(a := rest)\<rparr>"
  let ?r = "install_sections ops True c len (lay_specs True kwargs extra) (nat num) ?st0"
  from Cons.prems have "bury_inv (state_of ?r)"
    by (simp add: bury_inv_install_sections)
  then show ?case
    unfolding sec by (cases ?r) (auto simp: Cons.IH)
qed

lemma bury_inv_install_cables:
  "install_cables ops True kwargs cable_data st = Some r \<Longrightarrow>
   at_port (install_vessel st) \<Longrightarrow> bury_inv st \<Longrightarrow> bury_inv (state_of r)"
proof (induction cable_data arbitrary: st)
  case Nil
  then show ?case by auto
next
  case (Cons ca cable_data)
  obtain c a where ca: "ca = (c, a)" by (cases ca)
  let ?st1 = "install_arrive ops c (st\<lparr>cable_storage := reset ops (cable_storage st)\<rparr>)"
  let ?r = "lay_all ops True kwargs c a (heap st a) ?st1"
  from Cons.prems have inv: "bury_inv (state_of ?r)"
    by (simp add: bury_inv_lay_all bury_inv_blocks)
  show ?case
  proof (cases ?r)
    case (Inl x)
    with Cons.prems inv ca show ?thesis
      by (auto simp: install_cables_Cons)
  next
    case (Inr st2)
    with Cons.prems ca have "install_cables ops True kwargs cable_data (install_leave st2) = Some r"
      by (simp add: install_cables_Cons)
    moreover have "at_port (install_vessel (install_leave st2))" by simp
    moreover from inv Inr have "bury_inv (install_leave st2)"
      by (simp add: bury_inv_blocks)
    ultimately show ?thesis by (rule Cons.IH)
  qed
qed

lemma bury_inv_trench_block: "bury_inv st \<Longrightarrow> bury_inv (trench_block ops a st)"
  by (simp add: trench_block_def bury_inv_blocks)

lemma bury_inv_aborted: "aborted a st st' \<Longrightarrow> bury_inv st \<Longrightarrow> bury_inv st'"
  by (simp add: aborted_def bury_inv_def)

lemma bury_array_cables_actions:
  "map action (log (bury_array_cables sections st)) =
     map action (log st) @ concat (map (\<lambda>s. [PositionOnsite, BuryCable s]) sections)"
  by (induction sections arbitrary: st) simp_all

lemma bury_sections_bury_array_cables:
  "bury_sections (log (bury_array_cables sections st)) = bury_sections (log st) @ sections"
  by (induction sections arbitrary: st) simp_all

text \<open>
  Claim C5. With a burial vessel configured the process always returns or raises; its
  trace has no \<open>lay_bury_cable\<close> step, and \<open>to_bury\<close> is the list of the sections of its
  \<open>lay_cable\<close> steps in order. When it returns, the last process it created is the burial
  process with exactly that list (the ones before are trench digging processes), and the
  burial process yields position onsite and \<open>bury_cable\<close> for each of these sections, in
  the order they were laid.
\<close>

theorem burial_vessel_buries_laid_sections:
  assumes "array_cable_bury_vessel cfg"
  shows "\<exists>r. setup_simulation ops s0 cfg h n kwargs = Some r \<and>
    lay_bury_sections (log (state_of r)) = [] \<and>
    to_bury (state_of r) = lay_sections (log (state_of r)) \<and>
    (case r of
       Inl e \<Rightarrow> True
     | Inr st' \<Rightarrow>
         (\<exists>digs. spawned st' = digs @ [BuryArrayCables (lay_sections (log st'))] \<and>
                 list_all is_dig digs) \<and>
         map action (log (bury_array_cables (lay_sections (log st')) st')) =
           map action (log st') @
             concat (map (\<lambda>s. [PositionOnsite, BuryCable s]) (lay_sections (log st'))) \<and>
         bury_sections (log (bury_array_cables (lay_sections (log st')) st')) =
           lay_sections (log st'))"
proof -
  obtain r where r: "setup_simulation ops s0 cfg h n kwargs = Some r"
    using setup_simulation_total [of ops s0 cfg h n kwargs] by blast
  let ?cd = "fst (copy_cables (cables cfg) h n)"
  let ?st = "initial_sim s0 cfg (snd (copy_cables (cables cfg) h n))"
  from r have run: "install_array_cables ops (site_distance cfg) ?cd kwargs ?st = Some r"
    by (simp add: setup_simulation_eq)
  have tr: "\<forall>tv. trench_vessel ?st = Some tv \<longrightarrow> at_port tv" by simp
  have ns: "\<not> scheduled TrenchVessel ?st" by simp
  have init: "bury_inv ?st" by (simp add: bury_inv_def)
  from run tr ns show ?thesis
  proof (cases rule: install_array_cables_cases)
    case (aborts st')
    then obtain tv where tv: "trench_vessel ?st = Some tv" by blast
    with tr have p: "at_port tv" by simp
    from trench_cables_run
      [where P = bury_inv and ops = ops and cable_data = ?cd, OF tv p ns init] aborts(2)
    obtain a s where s: "bury_inv s"
      and ab: "aborted a (trench_arrive (s\<lparr>cable_storage := reset ops (cable_storage s)\<rparr>)) st'"
      by (auto simp: bury_inv_trench_block)
    from s have "bury_inv (trench_arrive (s\<lparr>cable_storage := reset ops (cable_storage s)\<rparr>))"
      by (simp add: bury_inv_blocks)
    with ab have "bury_inv st'" by (rule bury_inv_aborted)
    with r aborts(3) show ?thesis by (simp add: bury_inv_def)
  next
    case (lays st1 r2)
    have s1: "bury_inv st1 \<and> spawned st1 = [] \<and>
        install_vessel st1 = install_vessel ?st \<and> burial_vessel st1 = burial_vessel ?st \<and>
        to_bury st1 = []"
    proof (cases "trench_vessel ?st")
      case None
      with lays(1) init show ?thesis by simp
    next
      case (Some tv)
      with tr have tv: "at_port tv" by simp
      from lays(1) Some have run1: "trench_cables ops ?cd ?st = Some (Inr st1)" by simp
      from trench_cables_run
        [where P = bury_inv and ops = ops and cable_data = ?cd, OF Some tv ns init] run1
      have "bury_inv st1" by (auto simp: bury_inv_trench_block)
      with trench_cables_fleet [OF Some tv ns run1] show ?thesis by simp
    qed
    with assms have b: "(burial_vessel st1 \<noteq> None) = True" by simp
    from s1 have st1': "st1\<lparr>to_bury := []\<rparr> = st1" by simp
    from lays(2) have r2': "install_cables ops True kwargs ?cd st1 = Some r2"
      unfolding b st1' .
    from s1 have p: "at_port (install_vessel st1)" by simp
    from bury_inv_install_cables [OF r2' p] s1 have k: "bury_inv (state_of r2)" by simp
    from install_cables_fleet [OF r2' p] s1 assms
    have f: "spawned (state_of r2) = []" "burial_vessel (state_of r2) \<noteq> None"
      by simp_all
    show ?thesis
    proof (cases r2)
      case (Inl x)
      with lays(3) k r show ?thesis
        by (cases x) (simp add: bury_inv_def)
    next
      case (Inr st2)
      with lays(3) f have rr: "r = Inr (st2\<lparr>spawned := [BuryArrayCables (to_bury st2)]\<rparr>)"
        by simp
      from k Inr have k2: "lay_bury_sections (log st2) = []" "to_bury st2 = lay_sections (log st2)"
        "bury_sections (log st2) = []"
        by (simp_all add: bury_inv_def)
      have "\<exists>digs. [BuryArrayCables (lay_sections (log st2))] =
          digs @ [BuryArrayCables (lay_sections (log st2))] \<and> list_all is_dig digs"
        by (rule exI [of _ "[]"]) simp
      with r rr k2 show ?thesis
        by (simp add: bury_array_cables_actions bury_sections_bury_array_cables)
    qed
  qed
qed


theorem burial_vessel_buries_laid_sections_witness:
  "array_cable_bury_vessel (one_cable\<lparr>array_cable_bury_vessel := True\<rparr>) \<and>
   (\<exists>st'. setup_simulation pool_ops \<lparr>capacity = 10, level = 0\<rparr>
            (one_cable\<lparr>array_cable_bury_vessel := True\<rparr>) (\<lambda>_. [(4, 2, [])]) 1 [] =
              Some (Inr st') \<and>
          lay_sections (log st') = [4, 4] \<and> lay_bury_sections (log st') = [] \<and>
          spawned st' = [BuryArrayCables [4, 4]] \<and>
          bury_sections (log (bury_array_cables [4, 4] st')) = [4, 4])"
proof -
  let ?cfg = "one_cable\<lparr>array_cable_bury_vessel := True\<rparr>"
  let ?run = "setup_simulation pool_ops \<lparr>capacity = 10, level = 0\<rparr> ?cfg (\<lambda>_. [(4, 2, [])]) 1 []"
  have b: "array_cable_bury_vessel ?cfg" by simp
  have "\<exists>st'. ?run = Some (Inr st') \<and> lay_sections (log st') = [4, 4] \<and>
          spawned st' = [BuryArrayCables [4, 4]]"
    by (simp add: eval_simps one_cable_def eval_nat_numeral)
  then obtain st' where st': "?run = Some (Inr st')" "lay_sections (log st') = [4, 4]"
    "spawned st' = [BuryArrayCables [4, 4]]" by blast
  from burial_vessel_buries_laid_sections
    [OF b, of pool_ops "\<lparr>capacity = 10, level = 0\<rparr>" "\<lambda>_. [(4, 2, [])]" 1 "[]"] st'
  have "lay_bury_sections (log st') = []"
    "bury_sections (log (bury_array_cables [4, 4] st')) = [4, 4]"
    by auto
  with b st' show ?thesis by blast
qed

subsection \<open>The store of section lists\<close>

lemma heap_shrinks_lay_all:
  "heap st a = secs \<Longrightarrow>
   heap_shrinks {a} st (state_of (lay_all ops burial kwargs c a secs st)) \<and>
   (\<forall>st'. lay_all ops burial kwargs c a secs st = Inr st' \<longrightarrow> heap st' a = [])"
proof (induction secs arbitrary: st)
  case Nil
  then show ?case by (simp add: heap_shrinks_same)
next
  case (Cons sec rest)
  obtain len num extra where sec: "sec = (len, num, extra)" by (cases sec)
  let ?st0 = "st\<lparr>heap := (heap st)(a := rest)\<rparr>"
  let ?r = "install_sections ops burial c len (lay_specs burial kwargs extra) (nat num) ?st0"
  have k: "keeps ?st0 (state_of ?r)" by (rule install_sections_keeps)
  from Cons.prems have pop: "heap_shrinks {a} st ?st0" by (rule heap_shrinks_pop)
  show ?case
  proof (cases ?r)
    case (Inl x)
    with k have "heap (state_of ?r) = heap ?st0" by (simp add: keeps_def)
    then have "heap_shrinks {a} ?st0 (state_of ?r)" by (rule heap_shrinks_same)
    with pop have "heap_shrinks {a} st (state_of ?r)" by (rule heap_shrinks_trans)
    with Inl sec show ?thesis by simp
  next
    case (Inr st1)
    with k have h1: "heap st1 = heap ?st0" by (simp add: keeps_def)
    then have "heap_shrinks {a} ?st0 st1" by (rule heap_shrinks_same)
    with pop have a: "heap_shrinks {a} st st1" by (rule heap_shrinks_trans)
    from h1 have "heap st1 a = rest" by simp
    from Cons.IH [OF this] a Inr sec show ?thesis
      by (auto intro: heap_shrinks_trans)
  qed
qed

lemma heap_shrinks_install_cables:
  "install_cables ops burial kwargs cable_data st = Some r \<Longrightarrow>
   at_port (install_vessel st) \<Longrightarrow>
   heap_shrinks (snd ` set cable_data) st (state_of r) \<and>
   (\<forall>st'. r = Inr st' \<longrightarrow> (\<forall>a \<in> snd ` set cable_data. heap st' a = []))"
proof (induction cable_data arbitrary: st)
  case Nil
  then show ?case by (auto simp: heap_shrinks_refl)
next
  case (Cons ca cable_data)
  obtain c a where ca: "ca = (c, a)" by (cases ca)
  let ?A = "snd ` set (ca # cable_data)"
  let ?st1 = "install_arrive ops c (st\<lparr>cable_storage := reset ops (cable_storage st)\<rparr>)"
  let ?r = "lay_all ops burial kwargs c a (heap st a) ?st1"
  have "heap ?st1 a = heap st a" by simp
  from heap_shrinks_lay_all [OF this, of ops burial kwargs c]
  have l: "heap_shrinks {a} ?st1 (state_of ?r)"
    and e: "\<forall>st'. ?r = Inr st' \<longrightarrow> heap st' a = []" by simp_all
  have "heap_shrinks {a} st ?st1" by (rule heap_shrinks_same) simp
  with l have sh: "heap_shrinks {a} st (state_of ?r)" by (rule heap_shrinks_trans [rotated])
  show ?case
  proof (cases ?r)
    case (Inl x)
    with Cons.prems ca have "r = Inl x" by (simp add: install_cables_Cons)
    with sh Inl ca show ?thesis
      by (auto intro: heap_shrinks_mono)
  next
    case (Inr st2)
    with Cons.prems ca have "install_cables ops burial kwargs cable_data (install_leave st2) = Some r"
      by (simp add: install_cables_Cons)
    moreover have "at_port (install_vessel (install_leave st2))" by simp
    ultimately have IH: "heap_shrinks (snd ` set cable_data) (install_leave st2) (state_of r)"
      "\<forall>st'. r = Inr st' \<longrightarrow> (\<forall>a \<in> snd ` set cable_data. heap st' a = [])"
      using Cons.IH by blast+
    from sh Inr have "heap_shrinks {a} st (install_leave st2)"
      by (simp add: heap_shrinks_def)
    then have "heap_shrinks ?A st (install_leave st2)"
      by (rule heap_shrinks_mono) (simp add: ca)
    moreover from IH(1) have "heap_shrinks ?A (install_leave st2) (state_of r)"
      by (rule heap_shrinks_mono) auto
    ultimately have 1: "heap_shrinks ?A st (state_of r)" by (rule heap_shrinks_trans)
    from e Inr have "heap (install_leave st2) a = []" by simp
    with IH(1) have "heap (state_of r) a = []"
      by (rule heap_shrinks_empty)
    with IH(2) 1 ca show ?thesis by auto
  qed
qed

lemma heap_shrinks_trench_block:
  assumes "heap_shrinks A st s" "a \<in> A"
  shows "heap_shrinks A st (trench_block ops a s)"
proof -
  have "heap_shrinks {a} s (trench_block ops a s)" by (simp add: heap_shrinks_def)
  with assms(2) have "heap_shrinks A s (trench_block ops a s)"
    by (auto intro: heap_shrinks_mono)
  with assms(1) show ?thesis by (rule heap_shrinks_trans)
qed

lemma heap_shrinks_aborted:
  assumes "heap_shrinks A st s" "a \<in> A"
    and "aborted a (trench_arrive (s\<lparr>cable_storage := x\<rparr>)) st'"
  shows "heap_shrinks A st st'"
proof -
  from assms(3) have "heap_shrinks {a} (trench_arrive (s\<lparr>cable_storage := x\<rparr>)) st'"
    by (simp add: aborted_def)
  then have "heap_shrinks {a} s st'" by (simp add: heap_shrinks_def)
  with assms(2) have "heap_shrinks A s st'" by (auto intro: heap_shrinks_mono)
  with assms(1) show ?thesis by (rule heap_shrinks_trans)
qed

lemma heap_shrinks_trench_cables:
  assumes tv: "trench_vessel st = Some tv" "at_port tv"
    and ns: "\<not> scheduled TrenchVessel st"
    and run: "trench_cables ops cable_data st = Some r"
  shows "heap_shrinks (snd ` set cable_data) st (state_of r)"
proof -
  let ?A = "snd ` set cable_data"
  have step: "heap_shrinks ?A st (trench_block ops a s)"
    if "(c, a) \<in> set cable_data" "heap_shrinks ?A st s" for c a s
    using that(2) by (rule heap_shrinks_trench_block) (use that(1) in force)
  have "\<exists>r. trench_cables ops cable_data st = Some r \<and>
     (\<forall>st'. r = Inr st' \<longrightarrow>
        heap_shrinks ?A st st' \<and> (\<exists>v. trench_vessel st' = Some v \<and> at_port v) \<and>
        spawned st' = spawned st) \<and>
     (\<forall>e st'. r = Inl (e, st') \<longrightarrow>
        e = AgentAlreadyScheduled \<and>
        (\<exists>c a s. (c, a) \<in> set cable_data \<and> heap_shrinks ?A st s \<and> spawned s = spawned st \<and>
           aborted a (trench_arrive (s\<lparr>cable_storage := reset ops (cable_storage s)\<rparr>)) st'))"
    by (rule trench_cables_run [OF tv ns heap_shrinks_refl]) (rule step)
  then obtain r' where r': "trench_cables ops cable_data st = Some r'"
    and q1: "\<forall>st'. r' = Inr st' \<longrightarrow> heap_shrinks ?A st st'"
    and q2: "\<forall>e st'. r' = Inl (e, st') \<longrightarrow>
      (\<exists>c a s. (c, a) \<in> set cable_data \<and> heap_shrinks ?A st s \<and>
         aborted a (trench_arrive (s\<lparr>cable_storage := reset ops (cable_storage s)\<rparr>)) st')"
    by blast
  from run r' have "r' = r" by simp
  with q1 q2
  have 1: "\<forall>st'. r = Inr st' \<longrightarrow> heap_shrinks ?A st st'"
    and 2: "\<forall>e st'. r = Inl (e, st') \<longrightarrow>
      (\<exists>c a s. (c, a) \<in> set cable_data \<and> heap_shrinks ?A st s \<and>
         aborted a (trench_arrive (s\<lparr>cable_storage := reset ops (cable_storage s)\<rparr>)) st')"
    by simp_all
  show ?thesis
  proof (cases r)
    case (Inl x)
    obtain e st' where x: "x = (e, st')" by (cases x)
    with 2 Inl obtain c a s where mem: "(c, a) \<in> set cable_data"
      and sh: "heap_shrinks ?A st s"
      and ab: "aborted a (trench_arrive (s\<lparr>cable_storage := reset ops (cable_storage s)\<rparr>)) st'"
      by blast
    from mem have "a \<in> ?A" by force
    with sh have "heap_shrinks ?A st st'" using ab by (rule heap_shrinks_aborted)
    with Inl x show ?thesis by simp
  next
    case (Inr st')
    with 1 show ?thesis by simp
  qed
qed

lemma heap_shrinks_install_array_cables:
  assumes run: "install_array_cables ops distance cable_data kwargs st = Some r"
    and port: "at_port (install_vessel st)"
    and tr: "\<forall>tv. trench_vessel st = Some tv \<longrightarrow> at_port tv"
    and ns: "\<not> scheduled TrenchVessel st"
  shows "heap_shrinks (snd ` set cable_data) st (state_of r) \<and>
         (\<forall>st'. r = Inr st' \<longrightarrow> (\<forall>a \<in> snd ` set cable_data. heap st' a = []))"
proof -
  let ?A = "snd ` set cable_data"
  from run tr ns show ?thesis
  proof (cases rule: install_array_cables_cases)
    case (aborts st')
    then obtain tv where tv: "trench_vessel st = Some tv" by blast
    with tr have p: "at_port tv" by simp
    from heap_shrinks_trench_cables [OF tv p ns aborts(2)] aborts(3)
    show ?thesis by simp
  next
    case (lays st1 r2)
    have s1: "heap_shrinks ?A st st1 \<and> install_vessel st1 = install_vessel st"
    proof (cases "trench_vessel st")
      case None
      with lays(1) show ?thesis by (simp add: heap_shrinks_refl)
    next
      case (Some tv)
      with tr have tv: "at_port tv" by simp
      from lays(1) Some have run1: "trench_cables ops cable_data st = Some (Inr st1)" by simp
      from heap_shrinks_trench_cables [OF Some tv ns run1]
        trench_cables_fleet [OF Some tv ns run1]
      show ?thesis by simp
    qed
    with port have p: "at_port (install_vessel (st1\<lparr>to_bury := []\<rparr>))" by simp
    from heap_shrinks_install_cables [OF lays(2) p]
    have 2: "heap_shrinks ?A (st1\<lparr>to_bury := []\<rparr>) (state_of r2)"
      and e: "\<forall>st'. r2 = Inr st' \<longrightarrow> (\<forall>a \<in> ?A. heap st' a = [])" by simp_all
    from s1 have "heap_shrinks ?A st (st1\<lparr>to_bury := []\<rparr>)" by (simp add: heap_shrinks_def)
    with 2 have "heap_shrinks ?A st (state_of r2)" by (rule heap_shrinks_trans [rotated])
    with lays(3) e show ?thesis
      by (cases r2) (auto simp: heap_shrinks_def)
  qed
qed

lemma copy_cables_props:
  "copy_cables cs h n = (cable_data, h') \<Longrightarrow>
   map snd cable_data = [n ..< n + length cs] \<and>
   (\<forall>b. b < n \<longrightarrow> h' b = h b) \<and>
   ((\<forall>(name, ld, a) \<in> set cs. a < n) \<longrightarrow>
      map h' [n ..< n + length cs] = map (\<lambda>(name, ld, a). h a) cs)"
proof (induction cs arbitrary: h n cable_data h')
  case Nil
  then show ?case by simp
next
  case (Cons x cs)
  obtain name ld a where x: "x = (name, ld, a)" by (cases x)
  obtain cd1 h1 where rec: "copy_cables cs (h(n := h a)) (Suc n) = (cd1, h1)"
    by (cases "copy_cables cs (h(n := h a)) (Suc n)")
  with Cons.prems x have res: "cable_data = (\<lparr>linear_density = ld\<rparr>, n) # cd1" "h' = h1"
    by simp_all
  from Cons.IH [OF rec]
  have IH: "map snd cd1 = [Suc n ..< Suc n + length cs]"
    "\<forall>b. b < Suc n \<longrightarrow> h1 b = (h(n := h a)) b"
    "(\<forall>(name, ld, a) \<in> set cs. a < Suc n) \<longrightarrow>
      map h1 [Suc n ..< Suc n + length cs] = map (\<lambda>(name, ld, a'). (h(n := h a)) a') cs"
    by simp_all
  have up: "[n ..< n + length (x # cs)] = n # [Suc n ..< Suc n + length cs]"
    by (simp add: upt_conv_Cons del: upt_Suc)
  have 1: "map snd cable_data = [n ..< n + length (x # cs)]"
    unfolding up using res IH(1) by simp
  have 2: "\<forall>b. b < n \<longrightarrow> h' b = h b"
    using res IH(2) by simp
  have 3: "map h' [n ..< n + length (x # cs)] = map (\<lambda>(name, ld, a). h a) (x # cs)"
    if wf: "\<forall>(name, ld, a) \<in> set (x # cs). a < n"
  proof -
    from wf have "\<forall>(name, ld, a) \<in> set cs. a < Suc n" by auto
    with IH(3) have "map h1 [Suc n ..< Suc n + length cs] =
        map (\<lambda>(name, ld, a'). (h(n := h a)) a') cs" by simp
    also from wf have "\<dots> = map (\<lambda>(name, ld, a). h a) cs"
      by (intro map_cong) auto
    finally have "map h1 [Suc n ..< Suc n + length cs] = map (\<lambda>(name, ld, a). h a) cs" .
    moreover from IH(2) have "h1 n = h a" by simp
    ultimately show ?thesis unfolding up using res x by simp
  qed
  from 1 2 3 show ?case by blast
qed

text \<open>
  Claim C9. \<open>setup_simulation\<close> hands copies of the \<open>cable_sections\<close> lists to the
  process: when the lists of the configuration are objects of the store (their addresses
  are below the next free address), the run always returns or raises, every list of the
  configuration holds after the run what it held before, and the pops went to the
  copies: when the process returns, every copy is empty.
\<close>

theorem config_sections_not_mutated:
  assumes "\<forall>(name, ld, a) \<in> set (cables cfg). a < n"
  shows "\<exists>r. setup_simulation ops s0 cfg h n kwargs = Some r \<and>
    (\<forall>(name, ld, a) \<in> set (cables cfg). heap (state_of r) a = h a) \<and>
    (case r of
       Inl e \<Rightarrow> True
     | Inr st' \<Rightarrow> list_all (\<lambda>b. heap st' b = []) [n ..< n + length (cables cfg)])"
proof -
  obtain r where r: "setup_simulation ops s0 cfg h n kwargs = Some r"
    using setup_simulation_total [of ops s0 cfg h n kwargs] by blast
  obtain cd h' where cc: "copy_cables (cables cfg) h n = (cd, h')"
    by (cases "copy_cables (cables cfg) h n")
  let ?st = "initial_sim s0 cfg h'"
  from r cc have run: "install_array_cables ops (site_distance cfg) cd kwargs ?st = Some r"
    by (simp add: setup_simulation_eq)
  from copy_cables_props [OF cc]
  have addrs: "map snd cd = [n ..< n + length (cables cfg)]"
    and below: "\<forall>b. b < n \<longrightarrow> h' b = h b" by simp_all
  from addrs have A: "snd ` set cd = {n ..< n + length (cables cfg)}"
    by (metis set_map set_upt)
  from heap_shrinks_install_array_cables [OF run]
  have sh: "heap_shrinks (snd ` set cd) ?st (state_of r)"
    and e: "\<forall>st'. r = Inr st' \<longrightarrow> (\<forall>a \<in> snd ` set cd. heap st' a = [])"
    by simp_all
  have "heap (state_of r) a = h a" if "a < n" for a
  proof -
    from that A have "a \<notin> snd ` set cd" by simp
    with sh have "heap (state_of r) a = heap ?st a" by (simp add: heap_shrinks_def)
    with below that show ?thesis by simp
  qed
  with assms have 1: "\<forall>(name, ld, a) \<in> set (cables cfg). heap (state_of r) a = h a"
    by auto
  from e A have 2: "(case r of
       Inl e \<Rightarrow> True
     | Inr st' \<Rightarrow> list_all (\<lambda>b. heap st' b = []) [n ..< n + length (cables cfg)])"
    by (cases r) (auto simp: list_all_iff)
  from r 1 2 show ?thesis by blast
qed

theorem config_sections_not_mutated_witness:
  "cables one_cable = [(''XLPE'', 1, 0)] \<and>
   (\<exists>st'. setup_simulation pool_ops \<lparr>capacity = 10, level = 0\<rparr> one_cable
            ((\<lambda>_. [])(0 := [(4, 2, [])])) 1 [] = Some (Inr st') \<and>
          heap st' 0 = [(4, 2, [])] \<and> heap st' 1 = [])"
proof -
  let ?h = "(\<lambda>_. [])(0 := [(4, 2, [])])"
  let ?run = "setup_simulation pool_ops \<lparr>capacity = 10, level = 0\<rparr> one_cable ?h 1 []"
  have wf: "\<forall>(name, ld, a) \<in> set (cables one_cable). a < 1"
    by (simp add: one_cable_def)
  have "\<exists>st'. ?run = Some (Inr st')"
    by (simp add: eval_simps one_cable_def eval_nat_numeral)
  then obtain st' where st': "?run = Some (Inr st')" by blast
  from config_sections_not_mutated [OF wf, of pool_ops "\<lparr>capacity = 10, level = 0\<rparr>" ?h "[]"] st'
  have "heap st' 0 = [(4, 2, [])]" "heap st' 1 = []"
    by (auto simp: one_cable_def)
  moreover have "cables one_cable = [(''XLPE'', 1, 0)]"
    by (simp add: one_cable_def)
  ultimately show ?thesis using st' by blast
qed

subsection \<open>The laying procedure\<close>

lemma views_simps [simp]:
  "views [] = []"
  "views (evs @ evs') = views evs @ views evs'"
  "views (ev # evs) = step_view (action ev) @ views evs"
  by (simp_all add: views_def)

lemma views_lay_procedure [simp]:
  "views (log (lay_procedure burial specs section st)) =
     views (log st) @ section_views burial specs"
  by (simp add: lay_procedure_def Let_def section_views_def)

lemma views_blocks [simp]:
  "views (log (install_arrive ops c st)) = views (log st)"
  "views (log (install_leave st)) = views (log st)"
  "views (log (load_cable_on_vessel ops c st)) = views (log st)"
  by simp_all

lemma views_install_section:
  "install_section ops burial c len specs st = Inr st' \<Longrightarrow>
   views (log st') = views (log st) @ section_views burial specs"
  by (auto simp: install_section_def Let_def split: sum.splits error.splits prod.splits)

lemma views_install_sections:
  "install_sections ops burial c len specs k st = Inr st' \<Longrightarrow>
   views (log st') = views (log st) @ concat (replicate k (section_views burial specs))"
proof (induction k arbitrary: st)
  case 0
  then show ?case by simp
next
  case (Suc k)
  then obtain st1 where 1: "install_section ops burial c len specs st = Inr st1"
    and 2: "install_sections ops burial c len specs k st1 = Inr st'"
    by (auto split: sum.splits)
  from views_install_section [OF 1] Suc.IH [OF 2] show ?case by simp
qed

lemma views_lay_all:
  "lay_all ops burial kwargs c a secs st = Inr st' \<Longrightarrow>
   views (log st') = views (log st) @ sections_views burial kwargs secs"
proof (induction secs arbitrary: st)
  case Nil
  then show ?case by (auto simp: sections_views_def)
next
  case (Cons sec rest)
  obtain len num extra where sec: "sec = (len, num, extra)" by (cases sec)
  let ?st0 = "st\<lparr>heap := (heap st)(a := rest)\<rparr>"
  from Cons.prems sec obtain st1 where
    1: "install_sections ops burial c len (lay_specs burial kwargs extra) (nat num) ?st0 = Inr st1"
    and 2: "lay_all ops burial kwargs c a rest st1 = Inr st'"
    by (auto split: sum.splits)
  from views_install_sections [OF 1] Cons.IH [OF 2] sec show ?case
    by (simp add: sections_views_def)
qed

lemma views_install_cables:
  "install_cables ops burial kwargs cable_data st = Some (Inr st') \<Longrightarrow>
   at_port (install_vessel st) \<Longrightarrow> distinct (map snd cable_data) \<Longrightarrow>
   views (log st') =
     views (log st) @
       concat (map (\<lambda>(c, a). sections_views burial kwargs (heap st a)) cable_data) \<and>
   install_vessel st' =
     (if cable_data = [] then install_vessel st else \<lparr>at_port = True, at_site = False\<rparr>)"
proof (induction cable_data arbitrary: st)
  case Nil
  then show ?case by simp
next
  case (Cons ca cable_data)
  obtain c a where ca: "ca = (c, a)" by (cases ca)
  let ?st1 = "install_arrive ops c (st\<lparr>cable_storage := reset ops (cable_storage st)\<rparr>)"
  let ?r = "lay_all ops burial kwargs c a (heap st a) ?st1"
  from Cons.prems ca obtain st2 where
    1: "?r = Inr st2"
    and 2: "install_cables ops burial kwargs cable_data (install_leave st2) = Some (Inr st')"
    by (auto simp: install_cables_Cons split: sum.splits)
  have "heap ?st1 a = heap st a" by simp
  from heap_shrinks_lay_all [OF this, of ops burial kwargs c] 1
  have sh: "heap_shrinks {a} ?st1 st2" by simp
  have same: "heap st2 b = heap st b" if "b \<noteq> a" for b
    using sh that by (simp add: heap_shrinks_def)
  from Cons.prems ca have na: "a \<notin> snd ` set cable_data" and d: "distinct (map snd cable_data)"
    by simp_all
  have "map (\<lambda>(c, a). sections_views burial kwargs (heap st2 a)) cable_data =
      map (\<lambda>(c, a). sections_views burial kwargs (heap st a)) cable_data"
  proof (rule map_cong [OF refl])
    fix x assume x: "x \<in> set cable_data"
    obtain c' b where xb: "x = (c', b)" by (cases x)
    with x na have "b \<noteq> a" by force
    with xb show "(case x of (c, a) \<Rightarrow> sections_views burial kwargs (heap st2 a)) =
        (case x of (c, a) \<Rightarrow> sections_views burial kwargs (heap st a))"
      by (simp add: same)
  qed
  then have m: "concat (map (\<lambda>(c, a). sections_views burial kwargs (heap st2 a)) cable_data) =
      concat (map (\<lambda>(c, a). sections_views burial kwargs (heap st a)) cable_data)"
    by (rule arg_cong)
  have p: "at_port (install_vessel (install_leave st2))" by simp
  from Cons.IH [OF 2 p d]
  have ih: "views (log st') = views (log st2) @
      concat (map (\<lambda>(c, a). sections_views burial kwargs (heap st2 a)) cable_data)"
    and fl: "install_vessel st' =
      (if cable_data = [] then install_vessel (install_leave st2)
       else \<lparr>at_port = True, at_site = False\<rparr>)"
    by simp_all
  from views_lay_all [OF 1] have v2: "views (log st2) =
      views (log st) @ sections_views burial kwargs (heap st a)" by simp
  have "install_vessel (install_leave st2) = \<lparr>at_port = True, at_site = False\<rparr>"
    by simp
  with fl have "install_vessel st' = \<lparr>at_port = True, at_site = False\<rparr>"
    by simp
  moreover from ih v2 m have "views (log st') = views (log st) @
      concat (map (\<lambda>(c, a). sections_views burial kwargs (heap st a)) (ca # cable_data))"
    by (simp add: ca)
  ultimately show ?case by simp
qed


lemma views_setup_simulation:
  assumes nt: "\<not> array_cable_trench_vessel cfg"
    and wf: "\<forall>(name, ld, a) \<in> set (cables cfg). a < n"
    and run: "setup_simulation ops s0 cfg h n kwargs = Some (Inr st')"
  shows "views (log st') =
      concat (map (\<lambda>(name, ld, a). sections_views (array_cable_bury_vessel cfg) kwargs (h a))
                (cables cfg)) \<and>
    install_vessel st' = \<lparr>at_port = True, at_site = False\<rparr>"
proof -
  let ?b = "array_cable_bury_vessel cfg"
  obtain cd h' where cc: "copy_cables (cables cfg) h n = (cd, h')"
    by (cases "copy_cables (cables cfg) h n")
  let ?st = "initial_sim s0 cfg h'"
  from run cc have "install_array_cables ops (site_distance cfg) cd kwargs ?st = Some (Inr st')"
    by (simp add: setup_simulation_eq)
  with nt obtain st2 where
    r2: "install_cables ops ?b kwargs cd (?st\<lparr>to_bury := []\<rparr>) = Some (Inr st2)"
    and v: "views (log st') = views (log st2)" "install_vessel st' = install_vessel st2"
    by (auto simp: install_array_cables_def split: option.splits sum.splits if_splits)
  from copy_cables_props [OF cc] wf
  have addrs: "map snd cd = [n ..< n + length (cables cfg)]"
    and copies: "map h' [n ..< n + length (cables cfg)] = map (\<lambda>(name, ld, a). h a) (cables cfg)"
    by simp_all
  from addrs have d: "distinct (map snd cd)" by simp
  have p: "at_port (install_vessel (?st\<lparr>to_bury := []\<rparr>))" by simp
  from views_install_cables [OF r2 p d]
  have 1: "views (log st2) =
      concat (map (\<lambda>(c, a). sections_views ?b kwargs (heap ?st a)) cd)"
    and 2: "install_vessel st2 =
      (if cd = [] then initial_vessel else \<lparr>at_port = True, at_site = False\<rparr>)"
    by simp_all
  have "map (\<lambda>(c, a). sections_views ?b kwargs (heap ?st a)) cd =
      map (sections_views ?b kwargs) (map h' (map snd cd))"
    by (simp add: case_prod_unfold)
  also have "\<dots> = map (sections_views ?b kwargs) (map (\<lambda>(name, ld, a). h a) (cables cfg))"
    unfolding addrs copies ..
  also have "\<dots> = map (\<lambda>(name, ld, a). sections_views ?b kwargs (h a)) (cables cfg)"
    by (simp add: case_prod_unfold)
  finally have "map (\<lambda>(c, a). sections_views ?b kwargs (heap ?st a)) cd =
      map (\<lambda>(name, ld, a). sections_views ?b kwargs (h a)) (cables cfg)" .
  with 1 v have "views (log st') =
      concat (map (\<lambda>(name, ld, a). sections_views ?b kwargs (h a)) (cables cfg))"
    by simp
  moreover from 2 v have "install_vessel st' = \<lparr>at_port = True, at_site = False\<rparr>"
    by (simp add: initial_vessel_def)
  ultimately show ?thesis by simp
qed

lemma procedure_steps_views: "procedure_steps evs = map fst (views evs)"
proof (induction evs)
  case Nil
  show ?case by (simp add: procedure_steps_def)
next
  case (Cons ev evs)
  then show ?case
    by (cases "action ev") (simp_all add: procedure_steps_def)
qed

lemma names_section_views:
  "map fst (section_views False specs) = spec_section_steps"
  by (simp add: section_views_def spec_section_steps_def)

lemma names_sections_views:
  "\<forall>(len, num_sections, extra) \<in> set secs. num_sections = 1 \<Longrightarrow>
   map fst (sections_views False kwargs secs) = concat (map (\<lambda>sec. spec_section_steps) secs)"
  by (induction secs) (auto simp: sections_views_def names_section_views)

lemma install_section_actions:
  "get_cable ops (cable_storage st) len = Inr (section, s') \<Longrightarrow>
   map action (log (state_of (install_section ops False c len specs st))) =
     map action (log st) @
       [PositionOnsite, PrepCable, PullInCable, TerminateCable, LowerCable,
        LayBuryCable section specs, PrepCable, PullInCable, TerminateCable]"
  by (simp add: install_section_def)

text \<open>
  Claim C2. Without a burial vessel and without a trench vessel, with every section
  count 1: the run always returns or raises, and when it returns, the procedure steps of
  its trace (all steps but transits and cable loading) are, for every cable and every
  section in order, position onsite, prep, pull-in, terminate, lower, lay-and-bury, prep,
  pull-in, terminate, and the vessel ends with \<open>at_port\<close> true and \<open>at_site\<close> false. When
  \<open>get_cable\<close> succeeds at its first call, these nine steps are all that the section adds
  to the trace (after a reload they follow the round trip of claim C1).
\<close>

theorem section_procedure_steps:
  assumes "\<not> array_cable_bury_vessel cfg" "\<not> array_cable_trench_vessel cfg"
    and "\<forall>(name, ld, a) \<in> set (cables cfg). a < n"
    and "\<forall>(name, ld, a) \<in> set (cables cfg).
           \<forall>(len, num_sections, extra) \<in> set (h a). num_sections = 1"
  shows "(\<exists>r. setup_simulation ops s0 cfg h n kwargs = Some r \<and>
      (case r of
         Inl e \<Rightarrow> True
       | Inr st' \<Rightarrow>
           procedure_steps (log st') =
             concat (map (\<lambda>(name, ld, a). concat (map (\<lambda>sec. spec_section_steps) (h a)))
                       (cables cfg)) \<and>
           at_port (install_vessel st') \<and> \<not> at_site (install_vessel st'))) \<and>
    (\<forall>section s'. get_cable ops (cable_storage st) len = Inr (section, s') \<longrightarrow>
       map action (log (state_of (install_section ops False c len specs st))) =
         map action (log st) @
           [PositionOnsite, PrepCable, PullInCable, TerminateCable, LowerCable,
            LayBuryCable section specs, PrepCable, PullInCable, TerminateCable])"
proof -
  obtain r where r: "setup_simulation ops s0 cfg h n kwargs = Some r"
    using setup_simulation_total [of ops s0 cfg h n kwargs] by blast
  have "procedure_steps (log st') =
             concat (map (\<lambda>(name, ld, a). concat (map (\<lambda>sec. spec_section_steps) (h a)))
                       (cables cfg)) \<and>
           at_port (install_vessel st') \<and> \<not> at_site (install_vessel st')"
    if "r = Inr st'" for st'
  proof -
    from r that have run: "setup_simulation ops s0 cfg h n kwargs = Some (Inr st')" by simp
    from views_setup_simulation [OF assms(2,3) run] assms(1)
    have v: "views (log st') =
        concat (map (\<lambda>(name, ld, a). sections_views False kwargs (h a)) (cables cfg))"
      and f: "install_vessel st' = \<lparr>at_port = True, at_site = False\<rparr>" by simp_all
    have "map (\<lambda>x. map fst (case x of (name, ld, a) \<Rightarrow> sections_views False kwargs (h a)))
            (cables cfg) =
          map (\<lambda>(name, ld, a). concat (map (\<lambda>sec. spec_section_steps) (h a))) (cables cfg)"
    proof (rule map_cong [OF refl])
      fix x assume x: "x \<in> set (cables cfg)"
      obtain name ld a where xa: "x = (name, ld, a)" by (cases x)
      with x assms(4) have "\<forall>(len, num_sections, extra) \<in> set (h a). num_sections = 1"
        by auto
      from names_sections_views [OF this, of kwargs] xa
      show "map fst (case x of (name, ld, a) \<Rightarrow> sections_views False kwargs (h a)) =
          (case x of (name, ld, a) \<Rightarrow> concat (map (\<lambda>sec. spec_section_steps) (h a)))"
        by simp
    qed
    then have mm: "concat (map (\<lambda>x. map fst (case x of (name, ld, a) \<Rightarrow>
                 sections_views False kwargs (h a))) (cables cfg)) =
        concat (map (\<lambda>(name, ld, a). concat (map (\<lambda>sec. spec_section_steps) (h a)))
                       (cables cfg))"
      by (rule arg_cong)
    have "map fst (views (log st')) =
        concat (map (\<lambda>x. map fst (case x of (name, ld, a) \<Rightarrow>
                 sections_views False kwargs (h a))) (cables cfg))"
      unfolding v by (simp add: map_concat comp_def)
    with mm have "map fst (views (log st')) =
        concat (map (\<lambda>(name, ld, a). concat (map (\<lambda>sec. spec_section_steps) (h a)))
                       (cables cfg))"
      by (rule trans [rotated])
    with f show ?thesis by (simp add: procedure_steps_views)
  qed
  with r have "\<exists>r. setup_simulation ops s0 cfg h n kwargs = Some r \<and>
      (case r of
         Inl e \<Rightarrow> True
       | Inr st' \<Rightarrow>
           procedure_steps (log st') =
             concat (map (\<lambda>(name, ld, a). concat (map (\<lambda>sec. spec_section_steps) (h a)))
                       (cables cfg)) \<and>
           at_port (install_vessel st') \<and> \<not> at_site (install_vessel st'))"
    by (cases r) auto
  then show ?thesis
    by (simp add: install_section_actions)
qed


theorem section_procedure_steps_witness:
  "(\<exists>st'. setup_simulation pool_ops \<lparr>capacity = 10, level = 0\<rparr> one_cable
            ((\<lambda>_. [])(0 := [(4, 1, [])])) 1 [] = Some (Inr st') \<and>
          procedure_steps (log st') = spec_section_steps \<and>
          at_port (install_vessel st') \<and> \<not> at_site (install_vessel st')) \<and>
   map action (log (state_of (install_section pool_ops False \<lparr>linear_density = 1\<rparr> 4 []
       (at_site_sim\<lparr>cable_storage := \<lparr>capacity = 10, level = 10\<rparr>\<rparr>)))) =
     [PositionOnsite, PrepCable, PullInCable, TerminateCable, LowerCable,
      LayBuryCable 4 [], PrepCable, PullInCable, TerminateCable]"
proof -
  let ?h = "(\<lambda>_. [])(0 := [(4, 1, [])]) :: nat \<Rightarrow> section_spec list"
  let ?run = "setup_simulation pool_ops \<lparr>capacity = 10, level = 0\<rparr> one_cable ?h 1 []"
  let ?st = "at_site_sim\<lparr>cable_storage := \<lparr>capacity = 10, level = 10\<rparr>\<rparr>"
  have 1: "\<not> array_cable_bury_vessel one_cable" "\<not> array_cable_trench_vessel one_cable"
    by (simp_all add: one_cable_def)
  have 2: "\<forall>(name, ld, a) \<in> set (cables one_cable). a < 1"
    by (simp add: one_cable_def)
  have 3: "\<forall>(name, ld, a) \<in> set (cables one_cable).
           \<forall>(len, num_sections, extra) \<in> set (?h a). num_sections = 1"
    by (simp add: one_cable_def)
  have g: "get_cable pool_ops (cable_storage ?st) 4 = Inr (4, \<lparr>capacity = 10, level = 6\<rparr>)"
    by (simp add: pool_ops_def)
  have "\<exists>st'. ?run = Some (Inr st')"
    by (simp add: eval_simps one_cable_def)
  then obtain st' where st': "?run = Some (Inr st')" by blast
  note inst = section_procedure_steps
    [OF 1 2 3, of pool_ops "\<lparr>capacity = 10, level = 0\<rparr>" "[]" "?st" 4 "\<lparr>linear_density = 1\<rparr>" "[]"]
  from inst obtain r where r: "?run = Some r" and
    c: "case r of
         Inl e \<Rightarrow> True
       | Inr st' \<Rightarrow>
           procedure_steps (log st') =
             concat (map (\<lambda>(name, ld, a). concat (map (\<lambda>sec. spec_section_steps) (?h a)))
                       (cables one_cable)) \<and>
           at_port (install_vessel st') \<and> \<not> at_site (install_vessel st')"
    by blast
  from r st' have "r = Inr st'" by simp
  with c have "procedure_steps (log st') = spec_section_steps \<and>
          at_port (install_vessel st') \<and> \<not> at_site (install_vessel st')"
    by (simp add: one_cable_def)
  moreover from inst g have "map action (log (state_of (install_section pool_ops False
       \<lparr>linear_density = 1\<rparr> 4 [] ?st))) =
     [PositionOnsite, PrepCable, PullInCable, TerminateCable, LowerCable,
      LayBuryCable 4 [], PrepCable, PullInCable, TerminateCable]"
    by (simp add: at_site_sim_def)
  ultimately show ?thesis using st' by blast
qed

subsection \<open>Keyword arguments of the laying step\<close>

lemma lay_calls_sections_views:
  "concat (map lay_call (sections_views burial kwargs secs)) =
     concat (map (\<lambda>(len, num_sections, extra).
                    replicate (nat num_sections)
                      (if burial then ''lay'' else ''lay-and-bury'',
                       lay_specs burial kwargs extra)) secs)"
proof (induction secs)
  case Nil
  show ?case by (simp add: sections_views_def)
next
  case (Cons sec secs)
  obtain len num extra where sec: "sec = (len, num, extra)" by (cases sec)
  have "concat (map lay_call (concat (replicate k (section_views burial specs)))) =
      replicate k (if burial then ''lay'' else ''lay-and-bury'', specs)" for k specs
    by (induction k) (simp_all add: section_views_def)
  with Cons sec show ?case
    by (simp add: sections_views_def)
qed

lemma concat_map_lay_call:
  "concat (map lay_call (concat (map F xs))) = concat (map (\<lambda>x. concat (map lay_call (F x))) xs)"
  by (induction xs) simp_all

text \<open>
  Claim C10. A section tuple without a speed gets the unmodified keyword arguments; one
  with a speed gets them with the speed stored under \<open>cable_lay_speed\<close> when a burial
  vessel is configured and under \<open>cable_lay_bury_speed\<close> when not, every other key as it
  was. Without a trench vessel, when the run returns, the laying steps of the trace are,
  for every cable and every section in order, as many as the section count, each called
  with the keyword arguments of its own section tuple.
\<close>

theorem speed_forwarded_to_laying_step:
  "lay_specs burial kwargs [] = kwargs \<and>
   map_of (lay_specs burial kwargs (speed # others)) =
     (map_of kwargs)((if burial then ''cable_lay_speed'' else ''cable_lay_bury_speed'') \<mapsto> speed) \<and>
   (\<not> array_cable_trench_vessel cfg \<and> (\<forall>(name, ld, a) \<in> set (cables cfg). a < n) \<longrightarrow>
      (\<exists>r. setup_simulation ops s0 cfg h n kwargs = Some r \<and>
         (case r of
            Inl e \<Rightarrow> True
          | Inr st' \<Rightarrow>
              lay_calls (log st') =
                concat (map (\<lambda>(name, ld, a).
                  concat (map (\<lambda>(len, num_sections, extra).
                    replicate (nat num_sections)
                      (if array_cable_bury_vessel cfg then ''lay'' else ''lay-and-bury'',
                       lay_specs (array_cable_bury_vessel cfg) kwargs extra)) (h a)))
                  (cables cfg)))))"
proof (intro conjI impI)
  show "lay_specs burial kwargs [] = kwargs"
    by (simp add: lay_specs_def)
  show "map_of (lay_specs burial kwargs (speed # others)) =
     (map_of kwargs)((if burial then ''cable_lay_speed'' else ''cable_lay_bury_speed'') \<mapsto> speed)"
    by (simp add: lay_specs_def update_conv')
next
  assume a: "\<not> array_cable_trench_vessel cfg \<and> (\<forall>(name, ld, a) \<in> set (cables cfg). a < n)"
  let ?b = "array_cable_bury_vessel cfg"
  obtain r where r: "setup_simulation ops s0 cfg h n kwargs = Some r"
    using setup_simulation_total [of ops s0 cfg h n kwargs] by blast
  have "lay_calls (log st') =
      concat (map (\<lambda>(name, ld, a).
        concat (map (\<lambda>(len, num_sections, extra).
          replicate (nat num_sections)
            (if ?b then ''lay'' else ''lay-and-bury'', lay_specs ?b kwargs extra)) (h a)))
        (cables cfg))"
    if "r = Inr st'" for st'
  proof -
    from r that have run: "setup_simulation ops s0 cfg h n kwargs = Some (Inr st')" by simp
    from a have nt: "\<not> array_cable_trench_vessel cfg"
      and wf: "\<forall>(name, ld, a) \<in> set (cables cfg). a < n" by simp_all
    from views_setup_simulation [OF nt wf run]
    have v: "views (log st') =
        concat (map (\<lambda>(name, ld, a). sections_views ?b kwargs (h a)) (cables cfg))"
      by simp
    have "concat (map lay_call (views (log st'))) =
        concat (map (\<lambda>x. concat (map lay_call
          (case x of (name, ld, a) \<Rightarrow> sections_views ?b kwargs (h a)))) (cables cfg))"
      unfolding v by (rule concat_map_lay_call)
    also have "\<dots> = concat (map (\<lambda>(name, ld, a).
        concat (map (\<lambda>(len, num_sections, extra).
          replicate (nat num_sections)
            (if ?b then ''lay'' else ''lay-and-bury'', lay_specs ?b kwargs extra)) (h a)))
        (cables cfg))"
      by (rule arg_cong [where f = concat], rule map_cong [OF refl])
        (simp add: lay_calls_sections_views split: prod.splits)
    finally show ?thesis by (simp add: lay_calls_def)
  qed
  with r show "\<exists>r. setup_simulation ops s0 cfg h n kwargs = Some r \<and>
         (case r of
            Inl e \<Rightarrow> True
          | Inr st' \<Rightarrow>
              lay_calls (log st') =
                concat (map (\<lambda>(name, ld, a).
                  concat (map (\<lambda>(len, num_sections, extra).
                    replicate (nat num_sections)
                      (if ?b then ''lay'' else ''lay-and-bury'',
                       lay_specs ?b kwargs extra)) (h a)))
                  (cables cfg)))"
    by (cases r) auto
qed

theorem speed_forwarded_to_laying_step_witness:
  "\<not> array_cable_trench_vessel one_cable \<and>
   (\<exists>st'. setup_simulation pool_ops \<lparr>capacity = 10, level = 0\<rparr> one_cable
            ((\<lambda>_. [])(0 := [(4, 1, [2]), (3, 1, [])])) 1 [(''cable_lay_bury_speed'', 1), (''site_position_time'', 5)] =
              Some (Inr st') \<and>
          lay_calls (log st') =
            [(''lay-and-bury'', [(''cable_lay_bury_speed'', 2), (''site_position_time'', 5)]),
             (''lay-and-bury'', [(''cable_lay_bury_speed'', 1), (''site_position_time'', 5)])])"
proof -
  let ?h = "(\<lambda>_. [])(0 := [(4, 1, [2]), (3, 1, [])])"
  let ?kw = "[(''cable_lay_bury_speed'', 1), (''site_position_time'', 5)]"
  let ?run = "setup_simulation pool_ops \<lparr>capacity = 10, level = 0\<rparr> one_cable ?h 1 ?kw"
  have nt: "\<not> array_cable_trench_vessel one_cable"
    by (simp add: one_cable_def)
  have wf: "\<forall>(name, ld, a) \<in> set (cables one_cable). a < 1"
    by (simp add: one_cable_def)
  have "\<exists>st'. ?run = Some (Inr st')"
    by (simp add: eval_simps one_cable_def)
  then obtain st' where st': "?run = Some (Inr st')" by blast
  from speed_forwarded_to_laying_step
    [where cfg = one_cable and n = 1 and ops = pool_ops and ?s0.0 = "\<lparr>capacity = 10, level = 0\<rparr>"
       and h = ?h and kwargs = ?kw] nt wf st'
  have "lay_calls (log st') =
            [(''lay-and-bury'', [(''cable_lay_bury_speed'', 2), (''site_position_time'', 5)]),
             (''lay-and-bury'', [(''cable_lay_bury_speed'', 1), (''site_position_time'', 5)])]"
    by (simp add: one_cable_def lay_specs_def)
  with nt st' show ?thesis by blast
qed

subsection \<open>Laying after trenching\<close>

lemma views_trench_blocks [simp]:
  "views (log (trench_arrive st)) = views (log st)"
  "views (log (trench_leave st)) = views (log st)"
  "views (log (trenched a st)) = views (log st)"
  "views (log (trench_block ops a st)) = views (log st)"
  by (simp_all add: trench_block_def)

lemma trench_cables_empties:
  "trench_vessel st = Some tv \<Longrightarrow> at_port tv \<Longrightarrow> \<not> scheduled TrenchVessel st \<Longrightarrow>
   trench_cables ops cable_data st = Some (Inr st') \<Longrightarrow>
   \<forall>a \<in> snd ` set cable_data. heap st' a = []"
proof (induction cable_data arbitrary: st tv)
  case Nil
  then show ?case by simp
next
  case (Cons ca cable_data)
  obtain c a where ca: "ca = (c, a)" by (cases ca)
  let ?st1 = "trench_block ops a st"
  let ?tv = "tv\<lparr>at_site := False, at_port := True\<rparr>"
  have quiet: "trench_digs (heap st a) = []"
  proof (rule ccontr)
    assume "trench_digs (heap st a) \<noteq> []"
    from trench_cables_abort [OF Cons.prems(1-3) this, of ops c cable_data] Cons.prems(4) ca
    show False by simp
  qed
  from Cons.prems(1-3) quiet
  have "trench_cables ops ((c, a) # cable_data) st = trench_cables ops cable_data ?st1"
    by (rule trench_cables_quiet)
  with Cons.prems(4) ca have run1: "trench_cables ops cable_data ?st1 = Some (Inr st')" by simp
  from Cons.prems have 1: "trench_vessel ?st1 = Some ?tv" "at_port ?tv"
    "\<not> scheduled TrenchVessel ?st1" by simp_all
  from Cons.IH [OF 1 run1] have tail: "\<forall>b \<in> snd ` set cable_data. heap st' b = []" .
  have "heap ?st1 a = []" by simp
  from trench_cables_run
    [where P = "\<lambda>s. heap s a = []" and ops = ops and cable_data = cable_data, OF 1 this] run1
  have "heap st' a = []" by simp
  with tail ca show ?case by simp
qed

lemma install_cables_nothing:
  "\<forall>a \<in> snd ` set cable_data. heap st a = [] \<Longrightarrow> at_port (install_vessel st) \<Longrightarrow>
   \<exists>st'. install_cables ops burial kwargs cable_data st = Some (Inr st') \<and>
         views (log st') = views (log st)"
proof (induction cable_data arbitrary: st)
  case Nil
  then show ?case by simp
next
  case (Cons ca cable_data)
  obtain c a where ca: "ca = (c, a)" by (cases ca)
  let ?st1 = "install_arrive ops c (st\<lparr>cable_storage := reset ops (cable_storage st)\<rparr>)"
  let ?st2 = "install_leave (install_leave ?st1)"
  from Cons.prems ca have "heap st a = []" by simp
  with Cons.prems(2) ca
  have eq: "install_cables ops burial kwargs (ca # cable_data) st =
      install_cables ops burial kwargs cable_data ?st2"
    by (simp add: install_cables_Cons)
  from Cons.prems(1) have "\<forall>a \<in> snd ` set cable_data. heap ?st2 a = []" by simp
  moreover have "at_port (install_vessel ?st2)" by simp
  ultimately obtain st' where "install_cables ops burial kwargs cable_data ?st2 = Some (Inr st')"
    "views (log st') = views (log ?st2)"
    using Cons.IH [of ?st2] by blast
  with eq show ?case by simp
qed

lemma views_aborted: "aborted a st st' \<Longrightarrow> views (log st') = views (log st)"
  by (simp add: aborted_def)

text \<open>
  Claim C4. The trenching loop pops the entries of the very lists the laying loop reads
  afterwards, and it creates its digging processes for a vessel that is scheduled from
  the first of them on. So with a trench vessel configured, whatever the cables and the
  storage, the run ends with no step of the laying procedure in its trace (no position
  onsite, prep, pull-in, terminate, lower or laying step; \<open>procedure_steps\<close> leaves out
  transits and cable loading): either \<open>AgentAlreadyScheduled\<close> leaves the trenching part,
  or the trenching part returns and has emptied every list.
\<close>

theorem trench_vessel_leaves_nothing_to_lay:
  assumes "array_cable_trench_vessel cfg"
  shows "\<exists>r. setup_simulation ops s0 cfg h n kwargs = Some r \<and>
    procedure_steps (log (state_of r)) = [] \<and> lay_calls (log (state_of r)) = []"
proof -
  obtain r where r: "setup_simulation ops s0 cfg h n kwargs = Some r"
    using setup_simulation_total [of ops s0 cfg h n kwargs] by blast
  let ?cd = "fst (copy_cables (cables cfg) h n)"
  let ?st = "initial_sim s0 cfg (snd (copy_cables (cables cfg) h n))"
  from r have run: "install_array_cables ops (site_distance cfg) ?cd kwargs ?st = Some r"
    by (simp add: setup_simulation_eq)
  from assms have tv: "trench_vessel ?st = Some initial_vessel" by simp
  have p: "at_port initial_vessel" by simp
  have tr: "\<forall>tv. trench_vessel ?st = Some tv \<longrightarrow> at_port tv" by simp
  have ns: "\<not> scheduled TrenchVessel ?st" by simp
  have v0: "views (log ?st) = []" by simp
  from run tr ns have "views (log (state_of r)) = []"
  proof (cases rule: install_array_cables_cases)
    case (aborts st')
    from trench_cables_run
      [where P = "\<lambda>s. views (log s) = []" and ops = ops and cable_data = ?cd, OF tv p ns v0]
      aborts(2)
    obtain a s where "views (log s) = []"
      "aborted a (trench_arrive (s\<lparr>cable_storage := reset ops (cable_storage s)\<rparr>)) st'"
      by auto
    with views_aborted [of a _ st'] have "views (log st') = []" by simp
    with aborts(3) show ?thesis by simp
  next
    case (lays st1 r2)
    from lays(1) tv have run1: "trench_cables ops ?cd ?st = Some (Inr st1)" by simp
    from trench_cables_run
      [where P = "\<lambda>s. views (log s) = []" and ops = ops and cable_data = ?cd, OF tv p ns v0]
      run1
    have v1: "views (log st1) = []" by simp
    from trench_cables_empties [OF tv p ns run1]
    have e: "\<forall>a \<in> snd ` set ?cd. heap (st1\<lparr>to_bury := []\<rparr>) a = []" by simp
    from trench_cables_fleet [OF tv p ns run1]
    have "at_port (install_vessel (st1\<lparr>to_bury := []\<rparr>))" by simp
    from install_cables_nothing [OF e this, of ops "burial_vessel st1 \<noteq> None" kwargs] lays(2) v1
    obtain st2 where "r2 = Inr st2" "views (log st2) = []" by auto
    with lays(3) show ?thesis by simp
  qed
  then have "procedure_steps (log (state_of r)) = []" "lay_calls (log (state_of r)) = []"
    by (simp_all add: procedure_steps_views lay_calls_def)
  with r show ?thesis by blast
qed

theorem trench_vessel_leaves_nothing_to_lay_witness:
  "(\<exists>st'. setup_simulation pool_ops \<lparr>capacity = 10, level = 0\<rparr> one_cable
            ((\<lambda>_. [])(0 := [(4, 1, [])])) 1 [] = Some (Inr st') \<and>
          lay_calls (log st') = [(''lay-and-bury'', [])] \<and>
          procedure_steps (log st') = spec_section_steps) \<and>
   array_cable_trench_vessel (one_cable\<lparr>array_cable_trench_vessel := True\<rparr>) \<and>
   (\<exists>st'. setup_simulation pool_ops \<lparr>capacity = 10, level = 0\<rparr>
            (one_cable\<lparr>array_cable_trench_vessel := True\<rparr>)
            ((\<lambda>_. [])(0 := [(4, 1, [])])) 1 [] = Some (Inl (AgentAlreadyScheduled, st')) \<and>
          map agent (log st') = [TrenchVessel] \<and> map action (log st') = [Transit] \<and>
          spawned st' = [DigArrayCablesTrench (Num 4)] \<and> heap st' 1 = [] \<and>
          trench_vessel st' = Some \<lparr>at_port = False, at_site = False\<rparr> \<and>
          procedure_steps (log st') = [] \<and> lay_calls (log st') = [])"
proof -
  let ?h = "(\<lambda>_. [])(0 := [(4, 1, [])])"
  let ?cfg = "one_cable\<lparr>array_cable_trench_vessel := True\<rparr>"
  have 1: "\<exists>st'. setup_simulation pool_ops \<lparr>capacity = 10, level = 0\<rparr> one_cable ?h 1 [] =
            Some (Inr st') \<and>
          lay_calls (log st') = [(''lay-and-bury'', [])] \<and>
          procedure_steps (log st') = spec_section_steps"
    by (simp add: eval_simps one_cable_def lay_calls_def section_views_def
        procedure_steps_views spec_section_steps_def)
  have t: "array_cable_trench_vessel ?cfg" by simp
  have "\<exists>st'. setup_simulation pool_ops \<lparr>capacity = 10, level = 0\<rparr> ?cfg ?h 1 [] =
            Some (Inl (AgentAlreadyScheduled, st')) \<and>
          map agent (log st') = [TrenchVessel] \<and> map action (log st') = [Transit] \<and>
          spawned st' = [DigArrayCablesTrench (Num 4)] \<and> heap st' 1 = [] \<and>
          trench_vessel st' = Some \<lparr>at_port = False, at_site = False\<rparr>"
    by (simp add: eval_simps one_cable_def yield_checked_def set_trench_def initial_vessel_def)
  then obtain st' where "setup_simulation pool_ops \<lparr>capacity = 10, level = 0\<rparr> ?cfg ?h 1 [] =
            Some (Inl (AgentAlreadyScheduled, st')) \<and>
          map agent (log st') = [TrenchVessel] \<and> map action (log st') = [Transit] \<and>
          spawned st' = [DigArrayCablesTrench (Num 4)] \<and> heap st' 1 = [] \<and>
          trench_vessel st' = Some \<lparr>at_port = False, at_site = False\<rparr>" ..
  then have st': "setup_simulation pool_ops \<lparr>capacity = 10, level = 0\<rparr> ?cfg ?h 1 [] =
            Some (Inl (AgentAlreadyScheduled, st'))"
    "map agent (log st') = [TrenchVessel]" "map action (log st') = [Transit]"
    "spawned st' = [DigArrayCablesTrench (Num 4)]" "heap st' 1 = []"
    "trench_vessel st' = Some \<lparr>at_port = False, at_site = False\<rparr>"
    by simp_all
  from trench_vessel_leaves_nothing_to_lay
    [OF t, of pool_ops "\<lparr>capacity = 10, level = 0\<rparr>" ?h 1 "[]"] st'(1)
  have "procedure_steps (log st') = []" "lay_calls (log st') = []"
    by simp_all
  with st' have 2: "\<exists>st'. setup_simulation pool_ops \<lparr>capacity = 10, level = 0\<rparr> ?cfg ?h 1 [] =
            Some (Inl (AgentAlreadyScheduled, st')) \<and>
          map agent (log st') = [TrenchVessel] \<and> map action (log st') = [Transit] \<and>
          spawned st' = [DigArrayCablesTrench (Num 4)] \<and> heap st' 1 = [] \<and>
          trench_vessel st' = Some \<lparr>at_port = False, at_site = False\<rparr> \<and>
          procedure_steps (log st') = [] \<and> lay_calls (log st') = []"
    by simp
  from 1 t 2 show ?thesis by (intro conjI)
qed

section \<open>Properties of the modelled project manager and kernel\<close>

subsection \<open>Phase names\<close>





lemma find_key_match_test_cases:
  "map (find_key_match test_phase_dict)
     [''TurbineInstallation'', ''TurbineInstallation_Test'', ''TurbineInstallation Test'',
      ''TurbineInstallation Test_1'', ''SpecificTurbineInstallation'',
      ''SpecificTurbineInstallation_Test'', ''SpecificTurbineInstallation Test'',
      ''SpecificTurbineInstallation Test_1'', ''DifferentTurbineInstallation'',
      ''Other TurbineInstallation'', ''Extra Different TurbineInstallation_1''] =
   [Some ''class TurbineInstallation'', Some ''class TurbineInstallation'',
    Some ''class TurbineInstallation'', Some ''class TurbineInstallation'',
    Some ''class SpecificTurbineInstallation'', Some ''class SpecificTurbineInstallation'',
    Some ''class SpecificTurbineInstallation'', Some ''class SpecificTurbineInstallation'',
    None, None, None]"
  by (simp add: find_key_match_def strip_suffix_def separators_def test_phase_dict_def)



subsection \<open>Action log\<close>

lemma contiguous_snoc:
  "contiguous c (rs @ [r]) =
     (contiguous c rs \<and> time_end r = (if rs = [] then c else time_end (last rs)) + duration r)"
  by (induction rs arbitrary: c) auto

lemma contiguous_sorted:
  "contiguous c rs \<Longrightarrow> \<forall>r \<in> set rs. 0 \<le> duration r \<Longrightarrow>
   sorted (map time_end rs) \<and> (\<forall>r \<in> set rs. c \<le> time_end r)"
proof (induction rs arbitrary: c)
  case Nil
  then show ?case by simp
next
  case (Cons r rs)
  from Cons.prems(1) have "contiguous (time_end r) rs"
    unfolding contiguous.simps by (rule conjunct2)
  moreover from Cons.prems(2) have "\<forall>x \<in> set rs. 0 \<le> duration x"
    by simp
  ultimately have "contiguous (time_end r) rs" "\<forall>x \<in> set rs. 0 \<le> duration x" .
  from Cons.IH [OF this]
  have "sorted (map time_end rs) \<and> (\<forall>x \<in> set rs. time_end r \<le> time_end x)" .
  with Cons.prems show ?case by auto
qed

lemma acquire_not_before:
  "acquire k g now dur = Some start \<Longrightarrow> now \<le> start"
  by (auto simp: acquire_def weather_acquire_def split: gate.splits option.splits)

lemma next_event_row:
  assumes "next_event k p = Inr (Some (r, p'))"
  shows "agent_id r = proc_name p \<and> proc_name p' = proc_name p \<and>
         time_end r = clock p + duration r \<and> clock p' = time_end r \<and>
         set (todo p') \<subseteq> set (todo p) \<and>
         ((\<forall>s \<in> set (todo p). 0 \<le> step_duration s) \<longrightarrow> 0 \<le> duration r)"
  using assms
  by (auto simp: next_event_def complete_step_def action_row_def
      split: list.splits if_splits option.splits)

lemma earliest_step:
  "earliest k ps = Inr (Some (r, ps')) \<Longrightarrow>
   \<exists>pre p p' post. ps = pre @ p # post \<and> ps' = pre @ p' # post \<and>
     next_event k p = Inr (Some (r, p'))"
proof (induction ps arbitrary: r ps')
  case Nil
  then show ?case by simp
next
  case (Cons q qs)
  show ?case
  proof (cases "\<exists>q'. next_event k q = Inr (Some (r, q')) \<and> ps' = q' # qs")
    case True
    then obtain q' where "next_event k q = Inr (Some (r, q'))" "ps' = q' # qs" by blast
    then have "q # qs = [] @ q # qs \<and> ps' = [] @ q' # qs \<and>
        next_event k q = Inr (Some (r, q'))" by simp
    then show ?thesis by blast
  next
    case False
    with Cons.prems obtain qs' where e: "earliest k qs = Inr (Some (r, qs'))"
      and ps': "ps' = q # qs'"
      by (auto split: sum.splits option.splits if_splits prod.splits)
    from Cons.IH [OF e] obtain pre p p' post where
      "qs = pre @ p # post" "qs' = pre @ p' # post" "next_event k p = Inr (Some (r, p'))"
      by blast
    with ps' have "q # qs = (q # pre) @ p # post \<and> ps' = (q # pre) @ p' # post \<and>
        next_event k p = Inr (Some (r, p'))" by simp
    then show ?thesis by blast
  qed
qed

lemma in_step_event:
  assumes inv: "in_step ps rows" and d: "distinct (map proc_name ps)"
    and e: "earliest k ps = Inr (Some (r, ps'))"
  shows "in_step ps' (rows @ [r]) \<and> map proc_name ps' = map proc_name ps"
proof -
  from earliest_step [OF e] obtain pre p p' post where
    ps: "ps = pre @ p # post" and ps': "ps' = pre @ p' # post"
    and n: "next_event k p = Inr (Some (r, p'))" by blast
  note ev = next_event_row [OF n]
  from ev ps ps' have names: "map proc_name ps' = map proc_name ps" by simp
  from inv ps have p: "contiguous 0 (rows_of (proc_name p) rows)"
    "clock p = end_of (rows_of (proc_name p) rows)"
    "\<forall>s \<in> set (todo p). 0 \<le> step_duration s"
    by (simp_all add: in_step_def)
  with ev have dur: "0 \<le> duration r" by simp
  have own: "contiguous 0 (rows_of (proc_name p') (rows @ [r])) \<and>
      clock p' = end_of (rows_of (proc_name p') (rows @ [r]))"
    using ev p by (simp add: rows_of_def contiguous_snoc end_of_def)
  have other: "contiguous 0 (rows_of (proc_name q) (rows @ [r])) \<and>
      clock q = end_of (rows_of (proc_name q) (rows @ [r]))"
    if "q \<in> set pre \<union> set post" for q
  proof -
    from d ps have "proc_name p \<notin> proc_name ` set pre" "proc_name p \<notin> proc_name ` set post"
      by auto
    with that have "proc_name q \<noteq> proc_name p" by (metis UnE imageI)
    with ev have "rows_of (proc_name q) (rows @ [r]) = rows_of (proc_name q) rows"
      by (simp add: rows_of_def)
    with inv that ps show ?thesis by (auto simp: in_step_def)
  qed
  have logged: "\<forall>x \<in> set (rows @ [r]). 0 \<le> duration x \<and> agent_id x \<in> proc_name ` set ps'"
  proof
    fix x assume "x \<in> set (rows @ [r])"
    then consider "x \<in> set rows" | "x = r" by auto
    then show "0 \<le> duration x \<and> agent_id x \<in> proc_name ` set ps'"
    proof cases
      case 1
      with inv have "0 \<le> duration x" "agent_id x \<in> proc_name ` set ps"
        by (simp_all add: in_step_def)
      moreover from names have "proc_name ` set ps' = proc_name ` set ps"
        by (metis set_map)
      ultimately show ?thesis by simp
    next
      case 2
      with dur ev ps' show ?thesis by simp
    qed
  qed
  have plans: "\<forall>q \<in> set ps'. \<forall>s \<in> set (todo q). 0 \<le> step_duration s"
  proof
    fix q assume "q \<in> set ps'"
    with ps' consider "q = p'" | "q \<in> set pre \<union> set post" by auto
    then show "\<forall>s \<in> set (todo q). 0 \<le> step_duration s"
    proof cases
      case 1
      with ev p(3) show ?thesis by blast
    next
      case 2
      with inv ps show ?thesis by (auto simp: in_step_def)
    qed
  qed
  from own other ps' logged plans have "in_step ps' (rows @ [r])"
    unfolding in_step_def by auto
  with names show ?thesis by simp
qed

lemma run_in_step:
  "run k ps rows = Inr out \<Longrightarrow> in_step ps rows \<Longrightarrow> distinct (map proc_name ps) \<Longrightarrow>
   \<exists>ps'. in_step ps' out \<and> map proc_name ps' = map proc_name ps \<and>
         (\<exists>more. out = rows @ more)"
proof (induction k ps rows rule: run.induct)
  case (1 k ps rows)
  show ?case
  proof (cases "earliest k ps")
    case (Inl e)
    with "1.prems"(1) show ?thesis by simp
  next
    case (Inr x)
    show ?thesis
    proof (cases x)
      case None
      with Inr "1.prems" have "out = rows" by simp
      with "1.prems" show ?thesis by auto
    next
      case (Some y)
      obtain r ps' where y: "y = (r, ps')" by (cases y)
      with Inr Some have e: "earliest k ps = Inr (Some (r, ps'))" by simp
      with "1.prems"(1) have run: "run k ps' (rows @ [r]) = Inr out" by simp
      from in_step_event [OF "1.prems"(2,3) e]
      have inv: "in_step ps' (rows @ [r])" and names: "map proc_name ps' = map proc_name ps"
        by simp_all
      from names "1.prems"(3) have d: "distinct (map proc_name ps')" by simp
      from "1.IH" [OF Inr Some y [symmetric] run inv d] names
      show ?thesis by auto
    qed
  qed
qed


lemma in_step_start:
  assumes "\<forall>a \<in> set agents. \<forall>s \<in> set (work_plan a). 0 \<le> step_duration s"
  shows "in_step (map start_proc agents) []"
  using assms by (auto simp: in_step_def rows_of_def end_of_def start_proc_def)

lemma simulate_in_step:
  assumes d: "distinct (map agent_name agents)"
    and nn: "\<forall>a \<in> set agents. \<forall>s \<in> set (work_plan a). 0 \<le> step_duration s"
    and run: "simulate k agents = Inr out"
  shows "\<exists>ps. in_step ps out \<and> map proc_name ps = map agent_name agents"
proof -
  have "proc_name \<circ> start_proc = agent_name"
    by (rule ext) (simp add: start_proc_def)
  then have names: "map proc_name (map start_proc agents) = map agent_name agents"
    by simp
  with d have d': "distinct (map proc_name (map start_proc agents))"
    by (simp only:)
  from run have "run k (map start_proc agents) [] = Inr out" by (simp add: simulate_def)
  from run_in_step [OF this in_step_start [OF nn] d'] names show ?thesis by auto
qed

text \<open>
  Claim C6. In a completed run of agents with distinct names and non-negative step
  durations, the logged actions of every agent are contiguous from the phase's time 0
  (each end time is the previous end time plus the action's own duration, weather and
  resource delays being logged as actions), and their end times are non-decreasing.
\<close>

theorem agent_log_contiguous:
  assumes "distinct (map agent_name agents)"
    and "\<forall>a \<in> set agents. \<forall>s \<in> set (work_plan a). 0 \<le> step_duration s"
    and "simulate k agents = Inr out"
  shows "contiguous 0 (rows_of name out) \<and> sorted (map time_end (rows_of name out))"
proof -
  from simulate_in_step [OF assms] obtain ps where inv: "in_step ps out" by blast
  have c: "contiguous 0 (rows_of name out)"
  proof (cases "name \<in> proc_name ` set ps")
    case True
    with inv show ?thesis by (auto simp: in_step_def)
  next
    case False
    with inv have "rows_of name out = []"
      by (auto simp: in_step_def rows_of_def filter_empty_conv)
    then show ?thesis by simp
  qed
  from inv have "\<forall>r \<in> set (rows_of name out). 0 \<le> duration r"
    by (simp add: in_step_def rows_of_def)
  with c contiguous_sorted [of 0 "rows_of name out"] show ?thesis by simp
qed

lemma demo_run: "simulate demo_kernel demo_agents = Inr demo_log"
  by code_simp

theorem agent_log_contiguous_witness:
  "simulate demo_kernel demo_agents = Inr demo_log \<and>
   map time_end (rows_of ''WTIV'' demo_log) = [2, 4, 7] \<and>
   map duration (rows_of ''WTIV'' demo_log) = [2, 2, 3] \<and>
   contiguous 0 (rows_of ''WTIV'' demo_log) \<and>
   sorted (map time_end (rows_of ''WTIV'' demo_log))"
proof -
  have d: "distinct (map agent_name demo_agents)"
    by (simp add: demo_agents_def)
  have nn: "\<forall>a \<in> set demo_agents. \<forall>s \<in> set (work_plan a). 0 \<le> step_duration s"
    by (simp add: demo_agents_def)
  from agent_log_contiguous [OF d nn demo_run, of "''WTIV''"]
  have "contiguous 0 (rows_of ''WTIV'' demo_log) \<and>
      sorted (map time_end (rows_of ''WTIV'' demo_log))" .
  moreover have "map time_end (rows_of ''WTIV'' demo_log) = [2, 4, 7]"
    "map duration (rows_of ''WTIV'' demo_log) = [2, 2, 3]"
    by (simp_all add: rows_of_def demo_log_def)
  ultimately show ?thesis using demo_run by simp
qed

subsection \<open>Project schedule\<close>

lemma find_app:
  "find P (xs @ ys) = (case find P xs of None \<Rightarrow> find P ys | Some x \<Rightarrow> Some x)"
  by (induction xs) simp_all

lemma simulate_first_row:
  assumes d: "distinct (map agent_name agents)"
    and nn: "\<forall>a \<in> set agents. \<forall>s \<in> set (work_plan a). 0 \<le> step_duration s"
    and run: "simulate k agents = Inr (r # rest)"
  shows "time_end r = duration r"
proof -
  from simulate_in_step [OF d nn run] obtain ps where inv: "in_step ps (r # rest)" by blast
  then have "agent_id r \<in> proc_name ` set ps" by (simp add: in_step_def)
  then obtain p where "p \<in> set ps" "proc_name p = agent_id r" by auto
  with inv have "contiguous 0 (rows_of (agent_id r) (r # rest))"
    by (auto simp: in_step_def)
  then show ?thesis by (simp add: rows_of_def)
qed

lemma run_install_phase_rows:
  assumes wf: "well_formed pm"
    and run: "run_install_phase pm (name, start) = Inr rows"
  shows "(\<forall>r \<in> set rows. phase r = name) \<and>
         (rows \<noteq> [] \<longrightarrow> action_start (hd rows) = phase_offset (origin pm) start)"
proof -
  from run obtain agents w local where
    cls: "get_phase_class (phase_registry pm) name = Inr agents"
    and sim: "simulate \<lparr>weather = w, available = resources pm\<rparr> agents = Inr local"
    and rows: "rows = map (shift_row name (phase_offset (origin pm) start)) local"
    by (auto simp: run_install_phase_def split: sum.splits kernel_error.splits)
  from cls have "find_key_match (phase_registry pm) name = Some agents"
    by (simp add: get_phase_class_def split: option.splits)
  then have "(strip_suffix name, agents) \<in> set (phase_registry pm)"
    by (auto simp: find_key_match_def dest: map_of_SomeD)
  with wf have d: "distinct (map agent_name agents)"
    and nn: "\<forall>a \<in> set agents. \<forall>s \<in> set (work_plan a). 0 \<le> step_duration s"
    by (auto simp: well_formed_def list_all_iff)
  have 1: "\<forall>r \<in> set rows. phase r = name"
    using rows by (simp add: shift_row_def)
  have 2: "action_start (hd rows) = phase_offset (origin pm) start" if "rows \<noteq> []"
  proof -
    from that rows obtain r rest where l: "local = r # rest" by (cases local) auto
    from simulate_first_row [OF d nn sim [unfolded l]] have "time_end r = duration r" .
    with rows l show ?thesis by (simp add: action_start_def shift_row_def)
  qed
  from 1 2 show ?thesis by blast
qed

lemma run_multiple_phases_overlapping_first:
  "well_formed pm \<Longrightarrow> run_multiple_phases_overlapping pm schedule = Inr table \<Longrightarrow>
   distinct (map fst schedule) \<Longrightarrow>
   (\<forall>r \<in> set table. phase r \<in> fst ` set schedule) \<and>
   (\<forall>name start r. (name, start) \<in> set schedule \<longrightarrow> first_action name table = Some r \<longrightarrow>
      action_start r = phase_offset (origin pm) start)"
proof (induction schedule arbitrary: table)
  case Nil
  then show ?case by (simp add: first_action_def)
next
  case (Cons entry entries)
  obtain n d where entry: "entry = (n, d)" by (cases entry)
  from Cons.prems(2) entry obtain rows later where
    ph: "run_install_phase pm (n, d) = Inr rows"
    and rest: "run_multiple_phases_overlapping pm entries = Inr later"
    and table: "table = rows @ later"
    by (auto split: sum.splits)
  from Cons.prems(3) entry have dist: "distinct (map fst entries)" and fresh: "n \<notin> fst ` set entries"
    by simp_all
  from Cons.IH [OF Cons.prems(1) rest dist]
  have names: "\<forall>r \<in> set later. phase r \<in> fst ` set entries"
    and firsts: "\<forall>name start r. (name, start) \<in> set entries \<longrightarrow>
        first_action name later = Some r \<longrightarrow> action_start r = phase_offset (origin pm) start"
    by blast+
  from run_install_phase_rows [OF Cons.prems(1) ph]
  have own: "\<forall>r \<in> set rows. phase r = n"
    and head: "rows \<noteq> [] \<longrightarrow> action_start (hd rows) = phase_offset (origin pm) d"
    by blast+
  have 1: "\<forall>r \<in> set table. phase r \<in> fst ` set (entry # entries)"
    using table own names entry by auto
  have 2: "action_start r = phase_offset (origin pm) start"
    if mem: "(name, start) \<in> set (entry # entries)" and f: "first_action name table = Some r"
    for name start r
  proof (cases "name = n")
    case True
    with mem entry fresh have s: "start = d" by force
    show ?thesis
    proof (cases rows)
      case Nil
      with f table True have "find (\<lambda>r. phase r = n) later = Some r"
        by (simp add: first_action_def)
      then have "r \<in> set later" "phase r = n" by (auto simp: find_Some_iff)
      with names fresh show ?thesis by auto
    next
      case (Cons x xs)
      with own have "phase x = n" by simp
      with f table True Cons have "r = x" by (simp add: first_action_def)
      with head Cons s show ?thesis by simp
    qed
  next
    case False
    with own have "find (\<lambda>r. phase r = name) rows = None"
      by (auto simp: find_None_iff)
    with f table have "first_action name later = Some r"
      by (simp add: first_action_def find_app)
    moreover from mem False entry have "(name, start) \<in> set entries" by simp
    ultimately show ?thesis using firsts by blast
  qed
  from 1 2 show ?case by blast
qed

text \<open>
  Claim C8. With a date-keyed schedule, for any two phases pinned to absolute start
  dates, the first logged action's time minus its duration of the one phase and of the
  other differ by the calendar-day difference of the two start dates times 24 hours,
  exactly, with or without a weather profile.
\<close>

theorem phase_start_gap:
  assumes "well_formed pm"
    and "distinct (map fst schedule)"
    and "run_multiple_phases_overlapping pm schedule = Inr table"
    and "(name1, start1) \<in> set schedule" "(name2, start2) \<in> set schedule"
    and "first_action name1 table = Some r1" "first_action name2 table = Some r2"
  shows "(time_end r2 - duration r2) - (time_end r1 - duration r1) =
           of_int (days_between start1 start2 * 24)"
proof -
  from run_multiple_phases_overlapping_first [OF assms(1,3,2)] assms(4-7)
  have "action_start r1 = phase_offset (origin pm) start1"
    "action_start r2 = phase_offset (origin pm) start2"
    by blast+
  then show ?thesis
    by (simp add: action_start_def phase_offset_def days_between_def algebra_simps)
qed

lemma demo_project_run:
  "run_multiple_phases_overlapping (demo_project None) demo_schedule = Inr demo_table"
  by code_simp

lemma short_project_run:
  "run_multiple_phases_overlapping (demo_project (Some stormy_start)) short_schedule
     = Inr short_table"
  by code_simp

lemma demo_project_well_formed: "well_formed (demo_project w)"
  by (simp add: well_formed_def demo_project_def demo_agents_def)

theorem phase_start_gap_witness:
  "days_between march_1 may_1 = 61 \<and> days_between march_1 march_3 = 2 \<and>
   (\<exists>r1 r2. first_action ''MonopileInstallation'' demo_table = Some r1 \<and>
            first_action ''TurbineInstallation'' demo_table = Some r2 \<and>
            (time_end r2 - duration r2) - (time_end r1 - duration r1) = 61 * 24) \<and>
   (\<exists>r1 r2. first_action ''MonopileInstallation'' short_table = Some r1 \<and>
            first_action ''TurbineInstallation'' short_table = Some r2 \<and>
            (time_end r2 - duration r2) - (time_end r1 - duration r1) = 2 * 24)"
proof -
  have d1: "days_between march_1 may_1 = 61" by code_simp
  have d2: "days_between march_1 march_3 = 2" by code_simp
  obtain a1 a2 where a: "first_action ''MonopileInstallation'' demo_table = Some a1"
      "first_action ''TurbineInstallation'' demo_table = Some a2"
    by (simp add: first_action_def demo_table_def)
  obtain b1 b2 where b: "first_action ''MonopileInstallation'' short_table = Some b1"
      "first_action ''TurbineInstallation'' short_table = Some b2"
    by (simp add: first_action_def short_table_def)
  have "(time_end a2 - duration a2) - (time_end a1 - duration a1)
          = of_int (days_between march_1 may_1 * 24)"
    using phase_start_gap [OF demo_project_well_formed _ demo_project_run _ _ a,
        of march_1 may_1]
    by (simp add: demo_schedule_def)
  moreover have "(time_end b2 - duration b2) - (time_end b1 - duration b1)
          = of_int (days_between march_1 march_3 * 24)"
    using phase_start_gap [OF demo_project_well_formed _ short_project_run _ _ b,
        of march_1 march_3]
    by (simp add: short_schedule_def)
  ultimately show ?thesis using a b d1 d2 by simp
qed

end
